theory Spec2Isabelle
  imports Complex_Main "HOL-Library.Word" "HOL-Library.Multiset"
begin

section \<open>IEEE-754 single precision, as the C type float\<close>

text \<open>
  Both programs are C. \<^verbatim>\<open>crunch_data.c\<close> keeps every reading in a \<^verbatim>\<open>float\<close>, and its
  comparator reads the four bytes of a float as an \<^verbatim>\<open>int\<close>, so a float is modelled by its
  bit pattern: a 32-bit word with the sign in bit 31, the biased exponent in bits 30..23
  and the fraction in bits 22..0. The arithmetic the program uses (\<^verbatim>\<open>+\<close>, \<^verbatim>\<open>/\<close> and the
  conversion of an \<^verbatim>\<open>int\<close>) is round-to-nearest, ties-to-even, evaluated in single
  precision. Every finite float is an integer multiple of \<open>2 ^ -149\<close>; \<open>magnitude\<close> is
  that integer, so the arithmetic below is exact integer arithmetic followed by one
  rounding.
\<close>

unbundle bit_operations_syntax

type_synonym float = "32 word"

definition sign_bit :: "float \<Rightarrow> bool" where
  "sign_bit w = (2 ^ 31 \<le> uint w)"

definition exponent :: "float \<Rightarrow> nat" where
  "exponent w = nat (uint w div 2 ^ 23 mod 256)"

definition fraction :: "float \<Rightarrow> int" where
  "fraction w = uint w mod 2 ^ 23"

definition is_nan :: "float \<Rightarrow> bool" where
  "is_nan w = (exponent w = 255 \<and> fraction w \<noteq> 0)"

definition is_inf :: "float \<Rightarrow> bool" where
  "is_inf w = (exponent w = 255 \<and> fraction w = 0)"

text \<open>The absolute value of a finite float, in units of \<open>2 ^ -149\<close>.\<close>

definition magnitude :: "float \<Rightarrow> int" where
  "magnitude w =
     (if exponent w = 0 then fraction w
      else (2 ^ 23 + fraction w) * 2 ^ (exponent w - 1))"

definition signed_mag :: "float \<Rightarrow> int" where
  "signed_mag w = (if sign_bit w then - magnitude w else magnitude w)"

text \<open>The number a finite float stands for.\<close>

definition valof :: "float \<Rightarrow> rat" where
  "valof w = of_int (signed_mag w) / 2 ^ 149"

text \<open>A float with the sign bit clear that is neither an infinity nor a NaN.\<close>

definition nonneg_finite :: "float \<Rightarrow> bool" where
  "nonneg_finite w = (\<not> sign_bit w \<and> exponent w < 255)"

function bit_length :: "int \<Rightarrow> nat" where
  "bit_length n = (if n \<le> 0 then 0 else Suc (bit_length (n div 2)))"
  by pat_completeness auto
termination
  by (relation "measure nat") auto

declare bit_length.simps [simp del]

text \<open>
  \<open>round_mag p q\<close> rounds the non-negative rational \<open>p / q\<close>, in units of \<open>2 ^ -149\<close>, to
  the nearest float (ties to the even fraction) and returns the bits below the sign. The
  quantum is \<open>2 ^ k\<close> units; a carry out of the fraction moves into the exponent field by
  itself, and a result past the largest finite float is the infinity \<open>255 * 2 ^ 23\<close>.
\<close>

definition round_mag :: "int \<Rightarrow> int \<Rightarrow> int" where
  "round_mag p q =
     (let k = bit_length (p div q) - 24;
          d = q * 2 ^ k;
          m = p div d;
          r = p mod d;
          m' = (if d < 2 * r \<or> (2 * r = d \<and> odd m) then m + 1 else m);
          b = int k * 2 ^ 23 + m'
      in if 255 * 2 ^ 23 \<le> b then 255 * 2 ^ 23 else b)"

definition pack :: "bool \<Rightarrow> int \<Rightarrow> float" where
  "pack s b = word_of_int ((if s then 2 ^ 31 else 0) + b)"

text \<open>
  Which NaN an operation returns depends on the processor. The model follows x86-64: an
  operation on a NaN returns that NaN (the first one, when both operands are) with the
  quiet bit set, and an invalid operation (0.0 / 0.0, the sum of two opposite infinities)
  returns the default NaN with the sign bit set, \<^verbatim>\<open>0xFFC00000\<close>. The theorems only use
  that the result is a NaN.
\<close>

definition quiet :: "float \<Rightarrow> float" where
  "quiet w = w OR 0x00400000"

definition default_nan :: float where
  "default_nan = pack True (255 * 2 ^ 23 + 2 ^ 22)"

definition fadd :: "float \<Rightarrow> float \<Rightarrow> float" where
  "fadd a b =
     (if is_nan a then quiet a
      else if is_nan b then quiet b
      else if is_inf a then (if is_inf b \<and> sign_bit a \<noteq> sign_bit b then default_nan else a)
      else if is_inf b then b
      else let s = signed_mag a + signed_mag b in
           if s = 0 then pack (sign_bit a \<and> sign_bit b) 0
           else pack (s < 0) (round_mag \<bar>s\<bar> 1))"

definition fdiv :: "float \<Rightarrow> float \<Rightarrow> float" where
  "fdiv a b =
     (let s = (sign_bit a \<noteq> sign_bit b) in
      if is_nan a then quiet a
      else if is_nan b then quiet b
      else if is_inf a then (if is_inf b then default_nan else pack s (255 * 2 ^ 23))
      else if is_inf b then pack s 0
      else if magnitude b = 0
        then (if magnitude a = 0 then default_nan else pack s (255 * 2 ^ 23))
      else pack s (round_mag (magnitude a * 2 ^ 149) (magnitude b)))"

text \<open>The conversion \<^verbatim>\<open>(float)i\<close> of a C \<^verbatim>\<open>int\<close>.\<close>

definition float_of_int :: "int \<Rightarrow> float" where
  "float_of_int i = pack (i < 0) (round_mag (\<bar>i\<bar> * 2 ^ 149) 1)"


section \<open>crunch\_data.c: the statistics\<close>

text \<open>
  An array is the list of its cells. An access outside the array is undefined behaviour
  in C; the program never checks for it, and the model stops with \<open>OutOfBounds\<close>. The
  value is not an error the program reports: it marks a run that has left the language's
  defined behaviour.
\<close>

datatype fault = OutOfBounds

text \<open>\<^verbatim>\<open>*(v+i)\<close> read and written.\<close>

definition deref :: "'a list \<Rightarrow> int \<Rightarrow> fault + 'a" where
  "deref v i = (if 0 \<le> i \<and> i < int (length v) then Inr (v ! nat i) else Inl OutOfBounds)"

definition assign :: "'a list \<Rightarrow> int \<Rightarrow> 'a \<Rightarrow> fault + 'a list" where
  "assign v i y = (if 0 \<le> i \<and> i < int (length v) then Inr (v[nat i := y]) else Inl OutOfBounds)"

text \<open>
  \<^verbatim>\<open>return( *(int *)a - *(int *)b);\<close>
  The bytes of both floats are read as 32-bit ints and subtracted. The subtraction is
  the machine's: it wraps around (\<open>-\<close> on words), and the result is read as a signed int.
\<close>

definition compare :: "float \<Rightarrow> float \<Rightarrow> int" where
  "compare a b = sint (a - b)"

text \<open>
  \<^verbatim>\<open>qsort\<close> belongs to the C library. The model sorts the first \<open>nmemb\<close> cells by
  insertion, looking only at the sign of what the comparator returns, and leaves the
  rest of the array alone. For floats with the sign bit clear the comparator of this
  program is a linear order, and lemma \<open>qsort_agrees\<close> below shows that every sorted
  arrangement of the cells is the one the model returns: there the outcome does not
  depend on the algorithm the library uses. Where the subtraction in the comparator
  wraps, the comparator need not be an order, and the arrangement a library leaves may
  depend on its algorithm; the general theorems below concern columns of floats with the
  sign bit clear, or say only which cells the array holds.
\<close>

fun insert_sorted :: "('a \<Rightarrow> 'a \<Rightarrow> int) \<Rightarrow> 'a \<Rightarrow> 'a list \<Rightarrow> 'a list" where
  "insert_sorted compar x [] = [x]"
| "insert_sorted compar x (y # ys) =
     (if compar x y \<le> 0 then x # y # ys else y # insert_sorted compar x ys)"

definition qsort :: "'a list \<Rightarrow> int \<Rightarrow> ('a \<Rightarrow> 'a \<Rightarrow> int) \<Rightarrow> fault + 'a list" where
  "qsort base nmemb compar =
     (if 0 \<le> nmemb \<and> nmemb \<le> int (length base)
      then Inr (foldr (insert_sorted compar) (take (nat nmemb) base) [] @ drop (nat nmemb) base)
      else Inl OutOfBounds)"

text \<open>
  \<^verbatim>\<open>for(x=0;x<c;x++) total += *(v+x);\<close>
\<close>

function mean_loop :: "float list \<Rightarrow> int \<Rightarrow> int \<Rightarrow> float \<Rightarrow> fault + float" where
  "mean_loop v c x total' =
     (if x < c then
        (case deref v x of
           Inl e \<Rightarrow> Inl e
         | Inr y \<Rightarrow> mean_loop v c (x + 1) (fadd total' y))
      else Inr total')"
  by pat_completeness auto
termination
  by (relation "measure (\<lambda>(v, c, x, total'). nat (c - x))") auto

declare mean_loop.simps [simp del]

text \<open>
  \<^verbatim>\<open>float total = 0.0; ... return(total/c);\<close>
  The count is converted to float and the division is a float division: nothing tests
  \<open>c\<close> against zero.
\<close>

definition get_mean :: "float list \<Rightarrow> int \<Rightarrow> fault + float" where
  "get_mean v c =
     (case mean_loop v c 0 0 of
        Inl e \<Rightarrow> Inl e
      | Inr total' \<Rightarrow> Inr (fdiv total' (float_of_int c)))"

text \<open>
  \<^verbatim>\<open>qsort(v,c,sizeof(float),compare);
  if( c % 2) return( *(v+c/2+1));
  else return( ( *(v+c/2) + *(v+c/2+1)) / 2 );\<close>
  The array is the caller's and is sorted in place, so the function returns the array
  as it leaves it together with its result. \<open>c\<close> is not negative once \<open>qsort\<close> has
  returned, so \<open>mod\<close> and \<open>div\<close> are C's \<^verbatim>\<open>%\<close> and \<^verbatim>\<open>/\<close>.
\<close>

definition get_median :: "float list \<Rightarrow> int \<Rightarrow> float list \<times> (fault + float)" where
  "get_median v c =
     (case qsort v c compare of
        Inl e \<Rightarrow> (v, Inl e)
      | Inr v' \<Rightarrow>
          (v',
           if c mod 2 \<noteq> 0 then deref v' (c div 2 + 1)
           else (case deref v' (c div 2) of
                   Inl e \<Rightarrow> Inl e
                 | Inr a \<Rightarrow>
                     (case deref v' (c div 2 + 1) of
                        Inl e \<Rightarrow> Inl e
                      | Inr b \<Rightarrow> Inr (fdiv (fadd a b) (float_of_int 2))))))"

text \<open>
  \<^verbatim>\<open>for(x=0;x<10;x++) { c = *(row_string+x);
     if( c == '_') *(date_string+x) = '-'; else *(date_string+x) = c; }
  *(date_string+x) = '\0';\<close>
\<close>

function set_date_loop :: "string \<Rightarrow> string \<Rightarrow> int \<Rightarrow> fault + string" where
  "set_date_loop row_string date_string x =
     (if x < 10 then
        (case deref row_string x of
           Inl e \<Rightarrow> Inl e
         | Inr c \<Rightarrow>
             (case assign date_string x (if c = CHR ''_'' then CHR ''-'' else c) of
                Inl e \<Rightarrow> Inl e
              | Inr d \<Rightarrow> set_date_loop row_string d (x + 1)))
      else assign date_string x (CHR 0x00))"
  by pat_completeness auto
termination
  by (relation "measure (\<lambda>(row_string, date_string, x). nat (10 - x))") auto

declare set_date_loop.simps [simp del]

definition set_date :: "string \<Rightarrow> string \<Rightarrow> fault + string" where
  "set_date row_string date_string = set_date_loop row_string date_string 0"


section \<open>crunch\_data.c: reading the rows\<close>

text \<open>
  The three columns are float arrays from \<^verbatim>\<open>malloc\<close> and \<^verbatim>\<open>realloc\<close>. An allocation of
  \<open>n\<close> bytes has room for \<open>n div 4\<close> floats (\<^verbatim>\<open>sizeof(float)\<close> is 4); a cell that has not
  been written is \<open>None\<close>. \<^verbatim>\<open>realloc\<close> keeps the cells that fit the new size. Both are
  taken to succeed: the program stops with \<^verbatim>\<open>exit(1)\<close> when they do not.
\<close>

definition malloc_floats :: "nat \<Rightarrow> float option list" where
  "malloc_floats n = replicate (n div 4) None"

definition realloc_floats :: "float option list \<Rightarrow> nat \<Rightarrow> float option list" where
  "realloc_floats p n = take (n div 4) p @ replicate (n div 4 - length p) None"

text \<open>
  \<^verbatim>\<open>char c; ...
  while( (c=fgetc(stdin)) != EOF ) { if(c=='\n') break;
     *(line_of_text+offset) = c; offset++; }
  return(offset);\<close>
  Standard input is the list of the characters still to be read. The function returns
  the offset, the buffer and the rest of the input. Nothing ends the text it stores, and
  nothing keeps it inside the buffer. What \<^verbatim>\<open>fgetc\<close> returns is stored in a \<^verbatim>\<open>char\<close>
  before it is compared with \<^verbatim>\<open>EOF\<close>; \<^verbatim>\<open>char\<close> is signed here, as on x86-64, so the byte
  \<^verbatim>\<open>0xFF\<close> compares equal to \<^verbatim>\<open>EOF\<close> and ends the row as the end of the input does.
\<close>

fun read_row :: "string \<Rightarrow> string \<Rightarrow> int \<Rightarrow> fault + (int \<times> string \<times> string)" where
  "read_row [] line_of_text offset = Inr (offset, line_of_text, [])"
| "read_row (c # stdin) line_of_text offset =
     (if c = CHR 0xFF then Inr (offset, line_of_text, stdin)
      else if c = CHR 0x0A then Inr (offset, line_of_text, stdin)
      else (case assign line_of_text offset c of
              Inl e \<Rightarrow> Inl e
            | Inr l \<Rightarrow> read_row stdin l (offset + 1)))"

text \<open>
  \<^verbatim>\<open>*(air+n) = strtof(r+TABLE_OFFSET,&v2);
  *(bar+n) = strtof(v2,&v3);
  *(wind+n) = strtof(v3,NULL);\<close>
  \<^verbatim>\<open>strtof\<close> belongs to the C library and is a parameter: given the text at the pointer
  it returns the float and the number of characters it has read.
\<close>

definition process_row ::
  "(string \<Rightarrow> float \<times> nat) \<Rightarrow> int \<Rightarrow> string \<Rightarrow>
   float option list \<Rightarrow> float option list \<Rightarrow> float option list \<Rightarrow>
   fault + (float option list \<times> float option list \<times> float option list)" where
  "process_row strtof n r air bar wind =
     (let v1 = 19;
          v2 = v1 + snd (strtof (drop v1 r));
          v3 = v2 + snd (strtof (drop v2 r))
      in case assign air n (Some (fst (strtof (drop v1 r)))) of
           Inl e \<Rightarrow> Inl e
         | Inr air' \<Rightarrow>
             (case assign bar n (Some (fst (strtof (drop v2 r)))) of
                Inl e \<Rightarrow> Inl e
              | Inr bar' \<Rightarrow>
                  (case assign wind n (Some (fst (strtof (drop v3 r)))) of
                     Inl e \<Rightarrow> Inl e
                   | Inr wind' \<Rightarrow> Inr (air', bar', wind'))))"

lemma read_row_rest:
  "read_row stdin line_of_text offset = Inr (n, l, rest) \<Longrightarrow>
     offset \<le> n \<and> length rest \<le> length stdin \<and> (offset < n \<longrightarrow> length rest < length stdin)"
proof (induction stdin arbitrary: line_of_text offset)
  case Nil
  then show ?case by simp
next
  case (Cons c stdin)
  show ?case
  proof (cases "c = CHR 0xFF \<or> c = CHR 0x0A")
    case True
    with Cons.prems show ?thesis by auto
  next
    case False
    with Cons.prems obtain l' where "assign line_of_text offset c = Inr l'"
      and "read_row stdin l' (offset + 1) = Inr (n, l, rest)"
      by (auto split: sum.splits)
    from Cons.IH [OF this(2)] show ?thesis by simp
  qed
qed

text \<open>
  The loop of \<^verbatim>\<open>main\<close> (lines 61 to 86):
  \<^verbatim>\<open>row_count = 0;
  while(read_row(row)) {
    if(row_count == 0) { set_date(row,date_string);
      air_temp = (float *)malloc(sizeof(float)*1); ... }
    else { air_temp = (float *)realloc(air_temp,row_count*sizeof(float)+1); ... }
    process_row(row_count,row,air_temp,bar_press,wind_speed);
    row_count++; }\<close>
  It returns the date, the three columns and the row count.
\<close>

function main_loop ::
  "(string \<Rightarrow> float \<times> nat) \<Rightarrow> string \<Rightarrow> string \<Rightarrow> string \<Rightarrow>
   float option list \<Rightarrow> float option list \<Rightarrow> float option list \<Rightarrow> int \<Rightarrow>
   fault + (string \<times> float option list \<times> float option list \<times> float option list \<times> int)" where
  "main_loop strtof stdin row date_string air_temp bar_press wind_speed row_count =
     (case read_row stdin row 0 of
        Inl e \<Rightarrow> Inl e
      | Inr (n, row', stdin') \<Rightarrow>
          if n = 0 then Inr (date_string, air_temp, bar_press, wind_speed, row_count)
          else
            (case (if row_count = 0 then
                     (case set_date row' date_string of
                        Inl e \<Rightarrow> Inl e
                      | Inr d \<Rightarrow> Inr (d, malloc_floats (4 * 1), malloc_floats (4 * 1),
                                     malloc_floats (4 * 1)))
                   else Inr (date_string,
                             realloc_floats air_temp (nat (row_count * 4 + 1)),
                             realloc_floats bar_press (nat (row_count * 4 + 1)),
                             realloc_floats wind_speed (nat (row_count * 4 + 1)))) of
               Inl e \<Rightarrow> Inl e
             | Inr (d, a, b, w) \<Rightarrow>
                 (case process_row strtof row_count row' a b w of
                    Inl e \<Rightarrow> Inl e
                  | Inr (a', b', w') \<Rightarrow> main_loop strtof stdin' row' d a' b' w' (row_count + 1))))"
  by pat_completeness auto
termination
  by (relation "measure (\<lambda>(strtof, stdin, row, date_string, a, b, w, row_count). length stdin)")
     (auto dest!: read_row_rest)

declare main_loop.simps [simp del]


section \<open>fetch\_data.c: merging the three pages\<close>

text \<open>
  \<^verbatim>\<open>struct web_data { char *buffer; size_t size; };\<close>
  \<open>buffer\<close> is the allocation, the list of its bytes.
\<close>

record web_data =
  buffer :: string
  size_wd :: nat

text \<open>
  \<^verbatim>\<open>mem->buffer = realloc(mem->buffer, mem->size + realsize + 1);
  memcpy(&(mem->buffer[mem->size]),ptr,realsize);
  mem->size += realsize;
  mem->buffer[mem->size] = 0;\<close>
\<close>

definition write_mem :: "string \<Rightarrow> web_data \<Rightarrow> web_data" where
  "write_mem contents mem =
     \<lparr>buffer = take (size_wd mem) (buffer mem) @ contents @ [CHR 0x00],
      size_wd = size_wd mem + length contents\<rparr>"

text \<open>
  \<^verbatim>\<open>fetch_web_data\<close> starts from \<^verbatim>\<open>malloc(1)\<close>, one byte that holds anything, and size
  0; the library calls \<^verbatim>\<open>write_mem\<close> once for each piece of the page. It returns the size.
  The pieces stand for the network.
\<close>

definition fetch_web_data :: "char \<Rightarrow> string list \<Rightarrow> web_data \<times> int" where
  "fetch_web_data junk pieces =
     (let chunk = foldl (\<lambda>mem contents. write_mem contents mem) \<lparr>buffer = [junk], size_wd = 0\<rparr> pieces
      in (chunk, int (size_wd chunk)))"

text \<open>\<^verbatim>\<open>isprint\<close> in the C locale: the characters from the space to the tilde.\<close>

definition isprint :: "char \<Rightarrow> bool" where
  "isprint c = (32 \<le> (of_char c :: nat) \<and> (of_char c :: nat) \<le> 126)"

text \<open>
  \<^verbatim>\<open>while(isprint( *text)) { putchar( *text); text++; }\<close>
  A pointer into a buffer is the index it points at. The characters written to standard
  output are appended to \<open>out\<close>; they stay written when the read leaves the buffer.
\<close>

function write_line_loop :: "string \<Rightarrow> int \<Rightarrow> string \<Rightarrow> string \<times> (fault + int)" where
  "write_line_loop buf text out =
     (case deref buf text of
        Inl e \<Rightarrow> (out, Inl e)
      | Inr c \<Rightarrow>
          if isprint c then write_line_loop buf (text + 1) (out @ [c])
          else (out, Inr text))"
  by pat_completeness auto
termination
  by (relation "measure (\<lambda>(buf, text, out). nat (int (length buf) - text))")
     (auto simp: deref_def split: if_splits)

declare write_line_loop.simps [simp del]

text \<open>
  \<^verbatim>\<open>temp = text; text += offset;
  while(isprint( *text)) { ... }
  text+=2;
  return(text-temp);\<close>
\<close>

definition write_line :: "string \<Rightarrow> int \<Rightarrow> int \<Rightarrow> string \<Rightarrow> string \<times> (fault + int)" where
  "write_line buf text offset out =
     (let temp = text in
      case write_line_loop buf (text + offset) out of
        (out', Inl e) \<Rightarrow> (out', Inl e)
      | (out', Inr text') \<Rightarrow> (out', Inr (text' + 2 - temp)))"

lemma write_line_loop_advances:
  "write_line_loop buf text out = (out', Inr text') \<Longrightarrow> text \<le> text'"
proof (induction buf "text" out rule: write_line_loop.induct)
  case (1 buf pos out)
  from "1.prems" "1.IH" show ?case
    by (subst (asm) write_line_loop.simps) (fastforce split: sum.splits if_splits)
qed

text \<open>
  The loop of \<^verbatim>\<open>main\<close> (lines 120 to 130), with \<^verbatim>\<open>VALUE_READ_OFFSET\<close> 19:
  \<^verbatim>\<open>output = 0;
  while(output < bytes_read) {
    written = write_line(air_temp.buffer+output,0);
    putchar(' ');
    write_line(barometric_press.buffer+output,VALUE_READ_OFFSET);
    putchar(' ');
    write_line(wind_speed.buffer+output,VALUE_READ_OFFSET);
    putchar('\n');
    output += written; }\<close>
  The three arguments are the buffers of the three pages. It returns what it has written
  to standard output and the final value of \<open>output\<close>.
\<close>

function merge_loop ::
  "string \<Rightarrow> string \<Rightarrow> string \<Rightarrow> int \<Rightarrow> int \<Rightarrow> string \<Rightarrow> string \<times> (fault + int)" where
  "merge_loop air_temp barometric_press wind_speed bytes_read output out =
     (if output < bytes_read then
        (case write_line air_temp output 0 out of
           (o1, Inl e) \<Rightarrow> (o1, Inl e)
         | (o1, Inr written) \<Rightarrow>
             (case write_line barometric_press output 19 (o1 @ [CHR '' '']) of
                (o2, Inl e) \<Rightarrow> (o2, Inl e)
              | (o2, Inr w2) \<Rightarrow>
                  (case write_line wind_speed output 19 (o2 @ [CHR '' '']) of
                     (o3, Inl e) \<Rightarrow> (o3, Inl e)
                   | (o3, Inr w3) \<Rightarrow>
                       merge_loop air_temp barometric_press wind_speed bytes_read
                         (output + written) (o3 @ [CHR 0x0A]))))
      else (out, Inr output))"
  by pat_completeness auto
termination
  by (relation "measure (\<lambda>(a, b, w, bytes_read, output, out). nat (bytes_read - output))")
     (auto simp: write_line_def split: prod.splits sum.splits dest!: write_line_loop_advances)

declare merge_loop.simps [simp del]


section \<open>Properties\<close>

subsection \<open>Sorting by insertion keeps the cells\<close>

lemma mset_insert_sorted: "mset (insert_sorted compar x ys) = add_mset x (mset ys)"
  by (induction ys) auto

lemma mset_foldr_insert_sorted: "mset (foldr (insert_sorted compar) xs []) = mset xs"
  by (induction xs) (simp_all add: mset_insert_sorted)

subsection \<open>Fields of a float\<close>

lemma uint_bounds32: "0 \<le> uint (w :: float)" "uint (w :: float) < 2 ^ 32"
  using uint_lt2p [of w] by simp_all

lemma split_fields:
  fixes n :: int
  obtains q r where "n = 8388608 * q + r" "0 \<le> r" "r < 8388608"
    "n div 8388608 = q" "n mod 8388608 = r"
proof
  show "n = 8388608 * (n div 8388608) + n mod 8388608" by simp
  show "0 \<le> n mod 8388608" by simp
  show "n mod 8388608 < 8388608" by simp
qed simp_all

lemma fraction_bounds: "0 \<le> fraction w" "fraction w < 2 ^ 23"
  by (simp_all add: fraction_def)

lemma nonneg_finite_fields:
  assumes "uint w < 255 * 2 ^ 23"
  shows "uint w = 8388608 * int (exponent w) + fraction w" "exponent w < 255" "\<not> sign_bit w"
proof -
  obtain q r where d: "uint w = 8388608 * q + r" "0 \<le> r" "r < 8388608"
      "uint w div 8388608 = q" "uint w mod 8388608 = r"
    by (rule split_fields)
  have q: "0 \<le> q" "q < 255" using d(1-3) assms uint_bounds32 [of w] by auto
  then have "q mod 256 = q" by simp
  then have e: "exponent w = nat q" by (simp add: exponent_def d(4))
  show "uint w = 8388608 * int (exponent w) + fraction w"
    using d q by (simp add: e fraction_def)
  show "exponent w < 255" using q by (simp add: e)
  show "\<not> sign_bit w" using assms by (simp add: sign_bit_def)
qed

lemma nonneg_finite_iff: "nonneg_finite w \<longleftrightarrow> uint w < 255 * 2 ^ 23"
proof
  assume "uint w < 255 * 2 ^ 23"
  then show "nonneg_finite w"
    using nonneg_finite_fields [of w] by (simp add: nonneg_finite_def)
next
  assume h: "nonneg_finite w"
  obtain q r where d: "uint w = 8388608 * q + r" "0 \<le> r" "r < 8388608"
      "uint w div 8388608 = q" "uint w mod 8388608 = r"
    by (rule split_fields)
  from h have lt: "uint w < 2147483648" by (simp add: nonneg_finite_def sign_bit_def)
  have q: "0 \<le> q" "q < 256" using d(1-3) lt uint_bounds32 [of w] by auto
  then have "q mod 256 = q" by simp
  with h have "nat q < 255" by (simp add: nonneg_finite_def exponent_def d(4))
  then have "q < 255" by linarith
  then show "uint w < 255 * 2 ^ 23" using d(1-3) by auto
qed

subsection \<open>Bit order and numeric order\<close>

lemma magnitude_upper: "magnitude w < 2 ^ (23 + exponent w)"
proof (cases "exponent w = 0")
  case True
  then show ?thesis using fraction_bounds [of w] by (simp add: magnitude_def)
next
  case False
  then obtain e where e: "exponent w = Suc e" by (cases "exponent w") auto
  have "(8388608 + fraction w) * 2 ^ e < 16777216 * 2 ^ e"
    using fraction_bounds [of w] by (intro mult_strict_right_mono) simp_all
  then show ?thesis by (simp add: magnitude_def e power_add)
qed

lemma magnitude_lower: "0 < exponent w \<Longrightarrow> 2 ^ (22 + exponent w) \<le> magnitude w"
proof -
  assume "0 < exponent w"
  then obtain e where e: "exponent w = Suc e" by (cases "exponent w") auto
  have "8388608 * 2 ^ e \<le> (8388608 + fraction w) * 2 ^ e"
    using fraction_bounds [of w] by (intro mult_right_mono) simp_all
  then show ?thesis by (simp add: magnitude_def e power_add)
qed

lemma magnitude_less_exponent:
  assumes "exponent a < exponent b"
  shows "magnitude a < magnitude b"
proof -
  have "magnitude a < 2 ^ (23 + exponent a)" by (rule magnitude_upper)
  also have "(2::int) ^ (23 + exponent a) \<le> 2 ^ (22 + exponent b)"
    using assms by (intro power_increasing) simp_all
  also have "\<dots> \<le> magnitude b" using assms by (intro magnitude_lower) simp
  finally show ?thesis .
qed

lemma magnitude_less_fraction:
  assumes "exponent a = exponent b" "fraction a < fraction b"
  shows "magnitude a < magnitude b"
  using assms by (simp add: magnitude_def)

lemma magnitude_strict_mono:
  assumes "uint a < uint b" "uint b < 255 * 2 ^ 23"
  shows "magnitude a < magnitude b"
proof -
  have a: "uint a < 255 * 2 ^ 23" using assms by simp
  note fa = nonneg_finite_fields [OF a] and fb = nonneg_finite_fields [OF assms(2)]
  have "exponent a < exponent b \<or> (exponent a = exponent b \<and> fraction a < fraction b)"
    using assms(1) fa(1) fb(1) fraction_bounds [of a] fraction_bounds [of b] by auto
  then show ?thesis
    using magnitude_less_exponent magnitude_less_fraction by blast
qed

lemma magnitude_less_iff:
  assumes "nonneg_finite a" "nonneg_finite b"
  shows "magnitude a < magnitude b \<longleftrightarrow> uint a < uint b"
proof -
  have a: "uint a < 255 * 2 ^ 23" and b: "uint b < 255 * 2 ^ 23"
    using assms by (simp_all add: nonneg_finite_iff)
  show ?thesis
  proof
    assume "uint a < uint b"
    then show "magnitude a < magnitude b" using b by (rule magnitude_strict_mono)
  next
    assume m: "magnitude a < magnitude b"
    show "uint a < uint b"
    proof (rule ccontr)
      assume "\<not> uint a < uint b"
      then consider "uint b < uint a" | "uint a = uint b" by linarith
      then show False
      proof cases
        case 1
        then have "magnitude b < magnitude a" using a by (rule magnitude_strict_mono)
        with m show False by simp
      next
        case 2
        then have "a = b" by (simp add: word_uint_eq_iff)
        with m show False by simp
      qed
    qed
  qed
qed

lemma valof_nonneg: "nonneg_finite w \<Longrightarrow> valof w = of_int (magnitude w) / 2 ^ 149"
  by (simp add: valof_def signed_mag_def nonneg_finite_def)

lemma valof_less_iff:
  assumes "nonneg_finite a" "nonneg_finite b"
  shows "valof a < valof b \<longleftrightarrow> uint a < uint b"
  using magnitude_less_iff [OF assms]
  by (simp add: valof_nonneg assms divide_less_cancel)

lemma valof_eq_iff:
  assumes "nonneg_finite a" "nonneg_finite b"
  shows "valof a = valof b \<longleftrightarrow> uint a = uint b"
  using valof_less_iff [OF assms] valof_less_iff [OF assms(2) assms(1)] by force

lemma compare_nonneg:
  assumes "nonneg_finite a" "nonneg_finite b"
  shows "compare a b = uint a - uint b"
proof -
  have a: "uint a < 2147483648" and b: "uint b < 2147483648"
    using assms by (simp_all add: nonneg_finite_iff)
  have lower: "- 2147483648 \<le> uint c" for c :: float
    by (rule order_trans [of _ 0]) simp_all
  have sa: "sint a = uint a"
    using a lower [of a] by (simp add: sint_uint signed_take_bit_int_eq_self)
  have sb: "sint b = uint b"
    using b lower [of b] by (simp add: sint_uint signed_take_bit_int_eq_self)
  have "- 2147483648 \<le> uint a - uint b" "uint a - uint b < 2147483648"
    using a b uint_bounds32 [of a] uint_bounds32 [of b] by linarith+
  then have "signed_take_bit 31 (uint a - uint b) = uint a - uint b"
    by (intro signed_take_bit_int_eq_self) simp_all
  then show ?thesis by (simp add: compare_def sint_word_diff sa sb)
qed

lemma sint_nonneg:
  assumes "nonneg_finite a"
  shows "sint a = uint a"
proof -
  have a: "uint a < 2147483648" using assms by (simp add: nonneg_finite_iff)
  have "- 2147483648 \<le> uint a" by (rule order_trans [of _ 0]) simp_all
  then show ?thesis using a by (simp add: sint_uint signed_take_bit_int_eq_self)
qed

subsection \<open>The comparator on floats with the sign bit clear\<close>

lemma compare_le_iff:
  assumes "nonneg_finite a" "nonneg_finite b"
  shows "compare a b \<le> 0 \<longleftrightarrow> a \<le> b"
  by (simp add: compare_nonneg [OF assms] word_le_def)

lemma insert_sorted_compare:
  assumes "nonneg_finite x" "list_all nonneg_finite ys"
  shows "insert_sorted compare x ys = insort x ys"
  using assms by (induction ys) (simp_all add: compare_le_iff)

lemma foldr_insert_sorted_compare:
  assumes "list_all nonneg_finite xs"
  shows "foldr (insert_sorted compare) xs [] = sort xs"
  using assms
proof (induction xs)
  case Nil
  then show ?case by simp
next
  case (Cons x xs)
  then have "list_all nonneg_finite (sort xs)" by (simp add: list_all_iff)
  with Cons show ?case by (simp add: insert_sorted_compare)
qed

lemma qsort_agrees:
  assumes "list_all nonneg_finite xs" "mset ys = mset xs"
    and "sorted_wrt (\<lambda>a b. compare a b \<le> 0) ys"
  shows "foldr (insert_sorted compare) xs [] = ys"
proof -
  have "set ys = set xs" using assms(2) by (rule mset_eq_setD)
  then have nn: "\<forall>y\<in>set ys. nonneg_finite y" using assms(1) by (simp add: list_all_iff)
  have "sorted ys"
    using assms(3) nn by (auto elim!: sorted_wrt_mono_rel [rotated] simp: compare_le_iff)
  then have "sort xs = ys" using assms(2) by (intro properties_for_sort)
  then show ?thesis by (simp add: foldr_insert_sorted_compare assms(1))
qed

lemma sorted_valof:
  assumes "list_all nonneg_finite xs" "sorted xs"
  shows "sorted_wrt (\<lambda>x y. valof x \<le> valof y) xs"
proof -
  have "valof x \<le> valof y" if "x \<in> set xs" "y \<in> set xs" "x \<le> y" for x y
  proof -
    have x: "nonneg_finite x" and y: "nonneg_finite y"
      using assms(1) that by (simp_all add: list_all_iff)
    have "\<not> valof y < valof x"
      using that(3) by (simp add: valof_less_iff [OF y x] word_le_def)
    then show ?thesis by simp
  qed
  then show ?thesis using assms(2) by (auto elim!: sorted_wrt_mono_rel [rotated])
qed

lemma fst_get_median:
  assumes "0 \<le> c" "c \<le> int (length v)"
  shows "fst (get_median v c) =
           foldr (insert_sorted compare) (take (nat c) v) [] @ drop (nat c) v"
  using assms by (simp add: get_median_def qsort_def)

text \<open>
  With the negative zero among them the cells 1.0, -0.0, 2.0 have one arrangement that
  the comparator calls sorted, whatever the algorithm of the library.
\<close>

lemma negative_zero_column_sorted:
  assumes "mset ys = mset [0x3F800000, 0x80000000, 0x40000000 :: float]"
    and "sorted_wrt (\<lambda>x y. compare x y \<le> 0) ys"
  shows "ys = [0x3F800000, 0x40000000, 0x80000000]"
proof -
  let ?a = "0x3F800000 :: float" and ?z = "0x80000000 :: float" and ?b = "0x40000000 :: float"
  have c: "\<not> compare ?z ?a \<le> 0" "\<not> compare ?z ?b \<le> 0" "\<not> compare ?b ?a \<le> 0"
    by code_simp+
  have ne: "?a \<noteq> ?z" "?a \<noteq> ?b" "?z \<noteq> ?b" by simp_all
  have "length ys = 3" using mset_eq_length [OF assms(1)] by simp
  then obtain x y z where ys: "ys = [x, y, z]"
    by (metis (no_types, opaque_lifting) length_0_conv length_Suc_conv numeral_3_eq_3)
  have s: "compare x y \<le> 0" "compare x z \<le> 0" "compare y z \<le> 0"
    using assms(2) by (simp_all add: ys)
  have m: "mset [x, y, z] = mset [?a, ?z, ?b]" using assms(1) by (simp only: ys)
  have set: "{x, y, z} = {?a, ?z, ?b}" using mset_eq_setD [OF m] by simp
  have d: "distinct [x, y, z]" using mset_eq_imp_distinct_iff [OF m] ne by simp
  have x: "x = ?a \<or> x = ?z \<or> x = ?b" and y: "y = ?a \<or> y = ?z \<or> y = ?b"
    and z: "z = ?a \<or> z = ?z \<or> z = ?b"
    using set by blast+
  from x y z d s c show ?thesis unfolding ys by auto
qed

text \<open>
  Claim C10 fails as stated. The negative zero \<^verbatim>\<open>0x80000000\<close> is finite and its value is 0,
  which is not negative; read as an int it is the least one. The comparator puts it after
  1.0, though 0 is less than 1, and before the positive zero, though the two are equal;
  and the column 1.0, -0.0, 2.0 is left as 1.0, 2.0, -0.0, which is not ascending.
\<close>

theorem compare_negative_zero:
  "exponent 0x80000000 < 255 \<and> valof 0x80000000 = 0 \<and>
   valof 0x80000000 < valof 0x3F800000 \<and> 0 < compare 0x80000000 0x3F800000 \<and>
   valof 0x80000000 = valof 0 \<and> compare 0x80000000 0 < 0 \<and>
   fst (get_median [0x3F800000, 0x80000000, 0x40000000] 3) =
     [0x3F800000, 0x40000000, 0x80000000] \<and>
   valof 0x80000000 < valof 0x40000000"
  by code_simp

text \<open>
  Claim C10, amended. The comparator reads both floats as signed 32-bit ints and
  subtracts. For two finite floats with the sign bit clear (the finite floats that are
  not negative, the negative zero left out) the subtraction does not wrap, and the sign of
  the difference is the sign of the numeric comparison; and for a column of such floats
  the cells that \<open>get_median\<close> sorts are afterwards the same cells, each as often as
  before, in ascending numeric order, and the cells past the count are untouched.
\<close>

theorem compare_nonneg_ascending:
  assumes "nonneg_finite a" "nonneg_finite b"
    and "list_all nonneg_finite v" "0 \<le> c" "c \<le> int (length v)"
  shows "compare a b = sint a - sint b \<and>
         (compare a b < 0 \<longleftrightarrow> valof a < valof b) \<and>
         (compare a b = 0 \<longleftrightarrow> valof a = valof b) \<and>
         (0 < compare a b \<longleftrightarrow> valof b < valof a) \<and>
         mset (take (nat c) (fst (get_median v c))) = mset (take (nat c) v) \<and>
         drop (nat c) (fst (get_median v c)) = drop (nat c) v \<and>
         sorted_wrt (\<lambda>x y. valof x \<le> valof y) (take (nat c) (fst (get_median v c)))"
proof -
  have cmp: "compare a b = uint a - uint b" by (rule compare_nonneg [OF assms(1,2)])
  have 0: "compare a b = sint a - sint b"
    by (simp only: cmp sint_nonneg [OF assms(1)] sint_nonneg [OF assms(2)])
  have 1: "compare a b < 0 \<longleftrightarrow> valof a < valof b"
    by (simp add: cmp valof_less_iff [OF assms(1,2)])
  have 2: "compare a b = 0 \<longleftrightarrow> valof a = valof b"
    by (simp add: cmp valof_eq_iff [OF assms(1,2)])
  have 3: "0 < compare a b \<longleftrightarrow> valof b < valof a"
    by (simp add: cmp valof_less_iff [OF assms(2,1)])
  have pre: "list_all nonneg_finite (take (nat c) v)"
    using assms(3) by (auto simp: list_all_iff dest: in_set_takeD)
  have len: "length (foldr (insert_sorted compare) (take (nat c) v) []) = nat c"
    using assms(4,5) mset_foldr_insert_sorted [of compare "take (nat c) v", THEN arg_cong [of _ _ size]]
    by simp
  have t: "take (nat c) (fst (get_median v c)) = sort (take (nat c) v)"
    using len by (simp add: fst_get_median [OF assms(4,5)] foldr_insert_sorted_compare [OF pre])
  have d: "drop (nat c) (fst (get_median v c)) = drop (nat c) v"
    using len by (simp add: fst_get_median [OF assms(4,5)])
  have m: "mset (take (nat c) (fst (get_median v c))) = mset (take (nat c) v)"
    by (simp add: t)
  have s: "sorted_wrt (\<lambda>x y. valof x \<le> valof y) (take (nat c) (fst (get_median v c)))"
    unfolding t using pre by (intro sorted_valof) (simp_all add: list_all_iff)
  from 0 1 2 3 m d s show ?thesis by simp
qed

text \<open>The floats 1.0 and 2.0, and the column 3.0, 1.0, 2.0.\<close>

theorem compare_nonneg_ascending_witness:
  "nonneg_finite 0x3F800000 \<and> nonneg_finite 0x40000000 \<and>
   list_all nonneg_finite [0x40400000, 0x3F800000, 0x40000000] \<and>
   compare 0x3F800000 0x40000000 < 0 \<and> valof 0x3F800000 < valof 0x40000000 \<and>
   take 3 (fst (get_median [0x40400000, 0x3F800000, 0x40000000] 3)) =
     [0x3F800000, 0x40000000, 0x40400000] \<and>
   mset (take (nat 3) (fst (get_median [0x40400000, 0x3F800000, 0x40000000] 3))) =
     mset (take (nat 3) [0x40400000, 0x3F800000, 0x40000000]) \<and>
   sorted_wrt (\<lambda>x y. valof x \<le> valof y)
     (take (nat 3) (fst (get_median [0x40400000, 0x3F800000, 0x40000000] 3)))"
proof -
  have h: "nonneg_finite 0x3F800000" "nonneg_finite 0x40000000"
    "list_all nonneg_finite [0x40400000, 0x3F800000, 0x40000000]"
    by code_simp+
  have e: "take 3 (fst (get_median [0x40400000, 0x3F800000, 0x40000000] 3)) =
     [0x3F800000, 0x40000000, 0x40400000]" by code_simp
  have c: "compare 0x3F800000 0x40000000 < 0" by code_simp
  have r: "(0::int) \<le> 3" "(3::int) \<le> int (length [0x40400000, 0x3F800000, 0x40000000 :: float])"
    by simp_all
  note t = compare_nonneg_ascending [OF h r]
  have "valof 0x3F800000 < valof 0x40000000" using t c by blast
  moreover from t have "mset (take (nat 3) (fst (get_median [0x40400000, 0x3F800000, 0x40000000] 3))) =
     mset (take (nat 3) [0x40400000, 0x3F800000, 0x40000000])" by blast
  moreover from t have "sorted_wrt (\<lambda>x y. valof x \<le> valof y)
     (take (nat 3) (fst (get_median [0x40400000, 0x3F800000, 0x40000000] 3)))" by blast
  ultimately show ?thesis using h e c by blast
qed

subsection \<open>The date, the median and the mean\<close>

lemma set_date_loop_correct:
  assumes "10 \<le> length row_string" "length date_string = 11" "0 \<le> x" "x \<le> 10"
  shows "set_date_loop row_string date_string x =
           Inr (take (nat x) date_string @
                map (\<lambda>c. if c = CHR ''_'' then CHR ''-'' else c) (drop (nat x) (take 10 row_string)) @
                [CHR 0x00])"
  using assms
proof (induction row_string date_string x rule: set_date_loop.induct)
  case (1 row_string date_string x)
  show ?case
  proof (cases "x < 10")
    case True
    let ?c = "row_string ! nat x"
    let ?c' = "if ?c = CHR ''_'' then CHR ''-'' else ?c"
    let ?d = "date_string[nat x := ?c']"
    have r: "deref row_string x = Inr ?c"
      using True "1.prems" by (simp add: deref_def)
    have a: "assign date_string x ?c' = Inr ?d"
      using True "1.prems" by (simp add: assign_def)
    have ih: "set_date_loop row_string ?d (x + 1) =
           Inr (take (nat (x + 1)) ?d @
                map (\<lambda>c. if c = CHR ''_'' then CHR ''-'' else c) (drop (nat (x + 1)) (take 10 row_string)) @
                [CHR 0x00])"
      using True "1.prems" by (intro "1.IH" [OF True r a]) simp_all
    have n: "nat (x + 1) = Suc (nat x)" using "1.prems" by simp
    have lt: "nat x < length date_string" "nat x < length (take 10 row_string)"
      using True "1.prems" by simp_all
    have t: "take (Suc (nat x)) ?d = take (nat x) date_string @ [?c']"
      using lt(1) by (simp add: take_Suc_conv_app_nth)
    have dr: "drop (nat x) (take 10 row_string) = ?c # drop (Suc (nat x)) (take 10 row_string)"
      using lt(2) Cons_nth_drop_Suc [of "nat x" "take 10 row_string"] by simp
    show ?thesis
      by (subst set_date_loop.simps) (simp add: True r a ih n t dr)
  next
    case False
    then have x: "x = 10" using "1.prems" by simp
    have "date_string[10 := CHR 0x00] = take 10 date_string @ [CHR 0x00]"
      using "1.prems"(2) by (simp add: upd_conv_take_nth_drop)
    then show ?thesis
      using "1.prems" by (subst set_date_loop.simps) (simp add: x assign_def)
  qed
qed

text \<open>
  Claim C7. For a row of at least 10 characters, \<open>set_date\<close> fills the 11-byte date
  buffer with the first 10 characters of the row, every underscore replaced by a
  hyphen, and the terminating NUL.
\<close>

theorem set_date_first_ten:
  assumes "10 \<le> length row_string" "length date_string = 11"
  shows "set_date row_string date_string =
           Inr (map (\<lambda>c. if c = CHR ''_'' then CHR ''-'' else c) (take 10 row_string) @ [CHR 0x00])"
  using set_date_loop_correct [OF assms, of 0] by (simp add: set_date_def)

text \<open>The row that starts with \<^verbatim>\<open>2015_02_03\<close> gives \<^verbatim>\<open>2015-02-03\<close>.\<close>

theorem set_date_first_ten_witness:
  "10 \<le> length ''2015_02_03 09:02:34 38.86  30.07   3.00'' \<and>
   length (replicate 11 (CHR 0x00)) = 11 \<and>
   set_date ''2015_02_03 09:02:34 38.86  30.07   3.00'' (replicate 11 (CHR 0x00)) =
     Inr (''2015-02-03'' @ [CHR 0x00])"
  using set_date_first_ten [of "''2015_02_03 09:02:34 38.86  30.07   3.00''" "replicate 11 (CHR 0x00)"]
  by simp

text \<open>
  On a column that is already in ascending order the sort changes nothing, and the
  function returns what it reads at \<open>c div 2 + 1\<close>, or at \<open>c div 2\<close> and \<open>c div 2 + 1\<close>.
\<close>

lemma get_median_sorted:
  assumes "list_all nonneg_finite v" "sorted v" "int (length v) = c"
  shows "get_median v c =
           (v, if c mod 2 \<noteq> 0 then deref v (c div 2 + 1)
               else (case deref v (c div 2) of
                       Inl e \<Rightarrow> Inl e
                     | Inr a \<Rightarrow>
                         (case deref v (c div 2 + 1) of
                            Inl e \<Rightarrow> Inl e
                          | Inr b \<Rightarrow> Inr (fdiv (fadd a b) (float_of_int 2)))))"
proof -
  have "foldr (insert_sorted compare) v [] = v"
    using assms(1,2) by (simp add: foldr_insert_sorted_compare sort_key_id_if_sorted)
  then have "qsort v c compare = Inr v" using assms(3) by (auto simp: qsort_def)
  then show ?thesis by (simp add: get_median_def)
qed

text \<open>
  Claim C1 says that the median of a sorted column is the cell at index \<open>c div 2\<close> for
  an odd count, and the mean of the cells at \<open>c div 2 - 1\<close> and \<open>c div 2\<close> for an even
  one. The function reads \<open>c div 2 + 1\<close>, and \<open>c div 2\<close> with \<open>c div 2 + 1\<close>: for
  30.07, 29.91, 30.12 it returns 30.12, not 30.07, and for 3, 5, 1, 7 it returns
  (5 + 7) / 2 = 6, not 4. Lemma \<open>get_median_sorted\<close> gives the indices for every
  sorted column.
\<close>

theorem get_median_off_by_one:
  "get_median [0x41F08F5C, 0x41EF47AE, 0x41F0F5C3] 3 =
     ([0x41EF47AE, 0x41F08F5C, 0x41F0F5C3], Inr 0x41F0F5C3) \<and>
   get_median [0x40400000, 0x40A00000, 0x3F800000, 0x40E00000] 4 =
     ([0x3F800000, 0x40400000, 0x40A00000, 0x40E00000], Inr 0x40C00000)"
  by code_simp

text \<open>
  Claim C2 fails as stated: the column 3.0, 1.0, 2.0 is not the same after
  \<open>get_median\<close>.
\<close>

theorem get_median_reorders_column:
  "fst (get_median [0x40400000, 0x3F800000, 0x40000000] 3) \<noteq>
     [0x40400000, 0x3F800000, 0x40000000]"
  by code_simp

text \<open>
  Claim C2, amended. \<open>get_median\<close> has no copy: it sorts the caller's array in place.
  Afterwards the column holds the same values, each as often as before, and has the same
  length, whatever the column and the count. When the cells are finite floats with the
  sign bit clear and the count is the length of the column, the column is afterwards in
  ascending numeric order: it is the sorted arrangement of its cells, where \<open>sort\<close> orders
  the bit patterns, which for these floats is the numeric order. So every such column
  that was not ascending has been changed.
\<close>

theorem get_median_sorts_in_place:
  "mset (fst (get_median v c)) = mset v \<and> length (fst (get_median v c)) = length v \<and>
   (list_all nonneg_finite v \<and> int (length v) = c \<longrightarrow>
      fst (get_median v c) = sort v \<and>
      sorted_wrt (\<lambda>x y. valof x \<le> valof y) (fst (get_median v c)) \<and>
      (\<not> sorted_wrt (\<lambda>x y. valof x \<le> valof y) v \<longrightarrow> fst (get_median v c) \<noteq> v))"
proof -
  have m: "mset (fst (get_median v c)) = mset v"
  proof (cases "0 \<le> c \<and> c \<le> int (length v)")
    case True
    have "mset (take (nat c) v) + mset (drop (nat c) v) = mset v"
      by (metis append_take_drop_id mset_append)
    then show ?thesis using True by (simp add: fst_get_median mset_foldr_insert_sorted)
  next
    case False
    then show ?thesis by (auto simp add: get_median_def qsort_def)
  qed
  then have l: "length (fst (get_median v c)) = length v" by (rule mset_eq_length)
  have s: "fst (get_median v c) = sort v \<and>
      sorted_wrt (\<lambda>x y. valof x \<le> valof y) (fst (get_median v c)) \<and>
      (\<not> sorted_wrt (\<lambda>x y. valof x \<le> valof y) v \<longrightarrow> fst (get_median v c) \<noteq> v)"
    if h: "list_all nonneg_finite v" "int (length v) = c"
  proof -
    have c: "0 \<le> c" "c \<le> int (length v)" "nat c = length v" using h(2) by auto
    have e: "fst (get_median v c) = sort v"
      by (simp add: fst_get_median [OF c(1,2)] c(3) foldr_insert_sorted_compare [OF h(1)])
    have "list_all nonneg_finite (sort v)" using h(1) by (simp add: list_all_iff)
    then have a: "sorted_wrt (\<lambda>x y. valof x \<le> valof y) (sort v)"
      by (rule sorted_valof) simp
    from a show ?thesis unfolding e by auto
  qed
  from m l s show ?thesis by blast
qed

text \<open>The column 3.0, 1.0, 2.0 becomes 1.0, 2.0, 3.0.\<close>

theorem get_median_sorts_in_place_witness:
  "list_all nonneg_finite [0x40400000, 0x3F800000, 0x40000000] \<and>
   int (length [0x40400000, 0x3F800000, 0x40000000 :: float]) = 3 \<and>
   \<not> sorted_wrt (\<lambda>x y. valof x \<le> valof y) [0x40400000, 0x3F800000, 0x40000000] \<and>
   sort [0x40400000, 0x3F800000, 0x40000000 :: float] = [0x3F800000, 0x40000000, 0x40400000] \<and>
   fst (get_median [0x40400000, 0x3F800000, 0x40000000] 3) =
     [0x3F800000, 0x40000000, 0x40400000] \<and>
   fst (get_median [0x40400000, 0x3F800000, 0x40000000] 3) \<noteq>
     [0x40400000, 0x3F800000, 0x40000000] \<and>
   mset (fst (get_median [0x40400000, 0x3F800000, 0x40000000] 3)) =
     mset [0x40400000, 0x3F800000, 0x40000000]"
proof -
  let ?v = "[0x40400000, 0x3F800000, 0x40000000 :: float]"
  have h: "list_all nonneg_finite ?v" "int (length ?v) = 3" by code_simp+
  have n: "\<not> sorted_wrt (\<lambda>x y. valof x \<le> valof y) ?v" by code_simp
  have s: "sort ?v = [0x3F800000, 0x40000000, 0x40400000]" by code_simp
  note t = get_median_sorts_in_place [of ?v 3]
  from t h have e: "fst (get_median ?v 3) = sort ?v" by blast
  from t h n have d: "fst (get_median ?v 3) \<noteq> ?v" by blast
  from t have m: "mset (fst (get_median ?v 3)) = mset ?v" by blast
  from e s have e': "fst (get_median ?v 3) = [0x3F800000, 0x40000000, 0x40400000]"
    by (simp only:)
  from h n s e' d m show ?thesis by blast
qed

lemma mean_loop_done: "\<not> x < c \<Longrightarrow> mean_loop v c x t = Inr t"
  by (subst mean_loop.simps) simp

text \<open>
  Claim C3 fails as stated: for the empty column \<open>get_mean\<close> reports nothing and returns
  a NaN.
\<close>

theorem get_mean_empty_returns_nan:
  "get_mean [] 0 = Inr default_nan \<and> is_nan default_nan"
  by code_simp

text \<open>
  Claim C3, amended. With a count of 0 neither function tests for the empty column.
  \<open>get_mean\<close> skips its loop and returns the float quotient 0.0 / 0, a NaN, whatever
  the array holds; \<open>get_median\<close> reads the cells 0 and 1, which the empty column does not
  have.
\<close>

theorem empty_column_no_error:
  "get_mean v 0 = Inr default_nan \<and> is_nan default_nan \<and>
   get_median [] 0 = ([], Inl OutOfBounds)"
proof -
  have "fdiv 0 (float_of_int 0) = default_nan" by code_simp
  then have "get_mean v 0 = Inr default_nan" by (simp add: get_mean_def mean_loop_done)
  moreover have "is_nan default_nan" by code_simp
  moreover have "get_median [] 0 = ([], Inl OutOfBounds)" by code_simp
  ultimately show ?thesis by simp
qed

text \<open>
  For columns of floats with the sign bit clear the result does not depend on the order
  of the cells. For the readings -5.0, 1.0 and 38.86 the comparator is cyclic, and no
  arrangement of the three is sorted by it: whatever the library's algorithm does, the
  array it leaves is not in the comparator's order.
\<close>

lemma get_median_nonneg_order_independent:
  assumes "list_all nonneg_finite v" "mset v' = mset v" "int (length v) = c"
  shows "get_median v' c = get_median v c"
proof -
  have s: "set v' = set v" using assms(2) by (rule mset_eq_setD)
  then have n': "list_all nonneg_finite v'" using assms(1) by (simp add: list_all_iff)
  have l: "int (length v') = c" using assms(2,3) mset_eq_length [of v' v] by simp
  have "sort v' = sort v" using assms(2) by (intro properties_for_sort) simp_all
  then have "foldr (insert_sorted compare) v' [] = foldr (insert_sorted compare) v []"
    by (simp add: foldr_insert_sorted_compare assms(1) n')
  then have "qsort v' c compare = Inr (foldr (insert_sorted compare) v [])"
    "qsort v c compare = Inr (foldr (insert_sorted compare) v [])"
    using l assms(3) by (auto simp: qsort_def)
  then show ?thesis by (simp add: get_median_def)
qed

lemma compare_cycle_unsortable:
  assumes "mset ys = mset [0xC0A00000, 0x3F800000, 0x421B70A4 :: float]"
  shows "\<not> sorted_wrt (\<lambda>x y. compare x y \<le> 0) ys"
proof
  let ?a = "0xC0A00000 :: float" and ?b = "0x3F800000 :: float" and ?c = "0x421B70A4 :: float"
  assume srt: "sorted_wrt (\<lambda>x y. compare x y \<le> 0) ys"
  have c: "\<not> compare ?b ?a \<le> 0" "\<not> compare ?c ?b \<le> 0" "\<not> compare ?a ?c \<le> 0"
    by code_simp+
  have "set ys = {?a, ?b, ?c}" using mset_eq_setD [OF assms] by simp
  then obtain i j k where ijk: "i < length ys" "ys ! i = ?a" "j < length ys" "ys ! j = ?b"
      "k < length ys" "ys ! k = ?c"
    by (metis in_set_conv_nth insertI1 insertI2)
  have ne: "i \<noteq> j" "j \<noteq> k" "k \<noteq> i" using ijk by auto
  have "\<not> j < i" using sorted_wrt_nth_less [OF srt, of j i] ijk c(1) by auto
  moreover have "\<not> k < j" using sorted_wrt_nth_less [OF srt, of k j] ijk c(2) by auto
  moreover have "\<not> i < k" using sorted_wrt_nth_less [OF srt, of i k] ijk c(3) by auto
  ultimately show False using ne by linarith
qed

text \<open>
  Claim C6 says that the median of a column does not depend on the order of its cells.
  For the readings -5.0, 1.0 and 38.86 the subtraction in \<open>compare\<close> overflows, and it
  orders them in a cycle: -5.0 before 1.0, 1.0 before 38.86, 38.86 before -5.0. The three
  rotations of the column give three different results.
\<close>

theorem get_median_order_dependent:
  "get_median [0xC0A00000, 0x3F800000, 0x421B70A4] 3 =
     ([0xC0A00000, 0x3F800000, 0x421B70A4], Inr 0x421B70A4) \<and>
   get_median [0x3F800000, 0x421B70A4, 0xC0A00000] 3 =
     ([0x3F800000, 0x421B70A4, 0xC0A00000], Inr 0xC0A00000) \<and>
   get_median [0x421B70A4, 0xC0A00000, 0x3F800000] 3 =
     ([0x421B70A4, 0xC0A00000, 0x3F800000], Inr 0x3F800000) \<and>
   compare 0xC0A00000 0x3F800000 < 0 \<and> compare 0x3F800000 0x421B70A4 < 0 \<and>
   compare 0x421B70A4 0xC0A00000 < 0"
  by code_simp

subsection \<open>The rows that crunch\_data reads\<close>

lemma length_realloc_floats: "length (realloc_floats p n) = n div 4"
  by (simp add: realloc_floats_def)

lemma process_row_outside:
  assumes "int (length air) \<le> n"
  shows "process_row strtof n r air bar wind = Inl OutOfBounds"
  using assms by (simp add: process_row_def assign_def Let_def)

lemma main_loop_after_first_row:
  assumes "0 < row_count"
  shows "main_loop strtof stdin row date_string air_temp bar_press wind_speed row_count = Inl OutOfBounds
         \<or> (\<exists>row' stdin'.
               read_row stdin row 0 = Inr (0, row', stdin') \<and>
               main_loop strtof stdin row date_string air_temp bar_press wind_speed row_count =
                 Inr (date_string, air_temp, bar_press, wind_speed, row_count))"
proof (cases "read_row stdin row 0")
  case (Inl e)
  then show ?thesis by (subst main_loop.simps) (cases e, simp)
next
  case (Inr t)
  obtain n row' stdin' where t: "t = (n, row', stdin')" by (cases t)
  show ?thesis
  proof (cases "n = 0")
    case True
    then show ?thesis using Inr t by (subst (1 2) main_loop.simps) simp
  next
    case False
    have "nat (row_count * 4 + 1) div 4 = nat row_count" using assms by linarith
    then have "int (length (realloc_floats air_temp (nat (row_count * 4 + 1)))) \<le> row_count"
      using assms by (simp add: length_realloc_floats)
    then show ?thesis
      using Inr t False assms
      by (subst main_loop.simps) (simp add: process_row_outside)
  qed
qed

text \<open>
  Claim C8 says that every row adds one value to each of the three columns. The first
  row does: \<^verbatim>\<open>malloc(sizeof(float)*1)\<close> has room for one float. For every later row the
  program asks \<^verbatim>\<open>realloc\<close> for \<^verbatim>\<open>row_count*sizeof(float)+1\<close> bytes, room for
  \<open>row_count\<close> floats and one byte more, and \<^verbatim>\<open>process_row\<close> stores at index
  \<open>row_count\<close>, past the end of each column (lemma \<open>main_loop_after_first_row\<close>). With
  two rows of input the second store is outside the allocation, whatever \<^verbatim>\<open>strtof\<close>
  returns; with one row the three columns have one cell each and the count is 1. (An
  allocator that rounds sizes up hides the overflow; the language does not promise it.)
\<close>

theorem main_loop_second_row_overflows:
  "main_loop strtof
      (''2015_02_03 09:02:34 38.86  30.07   3.00'' @ [CHR 0x0A] @
       ''2015_02_03 09:07:34 38.90  30.08   4.00'' @ [CHR 0x0A])
      (replicate 80 (CHR 0x00)) (replicate 11 (CHR 0x00)) [] [] [] 0 = Inl OutOfBounds \<and>
   map_sum id (\<lambda>(d, a, b, w, n). (d, length a, length b, length w, n))
     (main_loop strtof (''2015_02_03 09:02:34 38.86  30.07   3.00'' @ [CHR 0x0A])
        (replicate 80 (CHR 0x00)) (replicate 11 (CHR 0x00)) [] [] [] 0) =
     Inr (''2015-02-03'' @ [CHR 0x00], 1, 1, 1, 1)"
  by code_simp

subsection \<open>The lines that fetch\_data writes\<close>

text \<open>
  A page that arrived in at least one piece is its bytes followed by a NUL, and
  \<open>bytes_read\<close> is the number of its bytes: the shape the theorems below assume of the
  three buffers.
\<close>

lemma foldl_write_mem:
  assumes "buffer mem = d @ [z]" "size_wd mem = length d"
  shows "foldl (\<lambda>mem contents. write_mem contents mem) mem pieces =
           \<lparr>buffer = d @ concat pieces @ [if pieces = [] then z else CHR 0x00],
            size_wd = length d + length (concat pieces)\<rparr>"
  using assms
proof (induction pieces arbitrary: mem d z)
  case Nil
  then show ?case by simp
next
  case (Cons p pieces)
  have "buffer (write_mem p mem) = (d @ p) @ [CHR 0x00]" "size_wd (write_mem p mem) = length (d @ p)"
    using Cons.prems by (simp_all add: write_mem_def)
  from Cons.IH [OF this] show ?case by simp
qed

lemma fetch_web_data_page:
  assumes "pieces \<noteq> []"
  shows "fetch_web_data junk pieces =
           (\<lparr>buffer = concat pieces @ [CHR 0x00], size_wd = length (concat pieces)\<rparr>,
            int (length (concat pieces)))"
  using assms foldl_write_mem [of "\<lparr>buffer = [junk], size_wd = 0\<rparr>" "[]" junk pieces]
  by (simp add: fetch_web_data_def)

lemma write_line_loop_run:
  assumes "0 \<le> pos"
  shows "write_line_loop buf pos out =
           (out @ takeWhile isprint (drop (nat pos) buf),
            if nat pos + length (takeWhile isprint (drop (nat pos) buf)) < length buf
            then Inr (pos + int (length (takeWhile isprint (drop (nat pos) buf))))
            else Inl OutOfBounds)"
  using assms
proof (induction buf pos out rule: write_line_loop.induct)
  case (1 buf pos out)
  show ?case
  proof (cases "nat pos < length buf")
    case False
    then have "deref buf pos = Inl OutOfBounds" using "1.prems" by (simp add: deref_def)
    then show ?thesis using False by (subst write_line_loop.simps) simp
  next
    case True
    let ?c = "buf ! nat pos"
    have d: "deref buf pos = Inr ?c" using True "1.prems" by (simp add: deref_def)
    have dr: "drop (nat pos) buf = ?c # drop (nat (pos + 1)) buf"
      using True "1.prems" Cons_nth_drop_Suc [of "nat pos" buf] by (simp add: nat_add_distrib)
    show ?thesis
    proof (cases "isprint ?c")
      case p: True
      have "write_line_loop buf (pos + 1) (out @ [?c]) =
           ((out @ [?c]) @ takeWhile isprint (drop (nat (pos + 1)) buf),
            if nat (pos + 1) + length (takeWhile isprint (drop (nat (pos + 1)) buf)) < length buf
            then Inr (pos + 1 + int (length (takeWhile isprint (drop (nat (pos + 1)) buf))))
            else Inl OutOfBounds)"
        using "1.prems" by (intro "1.IH" [OF d p]) simp
      then show ?thesis
        using p "1.prems" by (subst write_line_loop.simps) (simp add: d dr nat_add_distrib)
    next
      case np: False
      then show ?thesis using True by (subst write_line_loop.simps) (simp add: d dr)
    qed
  qed
qed

lemma write_line_run:
  assumes "0 \<le> pos + offset"
  shows "write_line buf pos offset out =
           (out @ takeWhile isprint (drop (nat (pos + offset)) buf),
            if nat (pos + offset) + length (takeWhile isprint (drop (nat (pos + offset)) buf)) < length buf
            then Inr (offset + int (length (takeWhile isprint (drop (nat (pos + offset)) buf))) + 2)
            else Inl OutOfBounds)"
  by (simp add: write_line_def write_line_loop_run [OF assms])

lemma write_line_outside:
  assumes "0 \<le> pos + offset" "int (length buf) \<le> pos + offset"
  shows "write_line buf pos offset out = (out, Inl OutOfBounds)"
  using assms by (simp add: write_line_run)

lemma not_isprint_NUL: "\<not> isprint (CHR 0x00)"
  by (simp add: isprint_def)

lemma takeWhile_terminated:
  assumes "\<not> P z"
  shows "length (takeWhile P (drop n (xs @ [z]))) \<le> length xs - n"
proof (cases "n \<le> length xs")
  case True
  have "takeWhile P (ys @ [z]) = takeWhile P ys" for ys
    using assms by (induction ys) simp_all
  then have "takeWhile P (drop n xs @ [z]) = takeWhile P (drop n xs)" .
  then show ?thesis using True length_takeWhile_le [of P "drop n xs"] by simp
next
  case False
  then show ?thesis by simp
qed

lemma isprint_run_terminated:
  "length (takeWhile isprint (drop n (xs @ [CHR 0x00]))) \<le> length xs - n"
  using not_isprint_NUL by (rule takeWhile_terminated)



lemma write_line_primary_terminated:
  assumes "0 \<le> output" "nat output < length page"
  shows "write_line (page @ [CHR 0x00]) output 0 out =
           (out @ takeWhile isprint (drop (nat output) (page @ [CHR 0x00])),
            Inr (int (length (takeWhile isprint (drop (nat output) (page @ [CHR 0x00])))) + 2))"
proof -
  have "length (takeWhile isprint (drop (nat output) (page @ [CHR 0x00])))
          \<le> length page - nat output"
    by (rule isprint_run_terminated)
  then show ?thesis using assms by (simp add: write_line_run)
qed

text \<open>
  Claim C5, amended. The loop has no alignment check. In a row where a secondary buffer
  ends at or before \<open>output + 19\<close> (which includes every buffer shorter than the offset),
  the line of the primary page and the following space are written first, and then the
  read at \<open>output + 19\<close> is outside that buffer: no error is signalled, and the row is
  not withheld.
\<close>

theorem merge_loop_short_secondary:
  assumes "0 \<le> output" "output < bytes_read"
    and "air_temp = page @ [CHR 0x00]" "bytes_read = int (length page)"
    and "int (length barometric_press) \<le> output + 19 \<or> int (length wind_speed) \<le> output + 19"
  shows "\<exists>rest. merge_loop air_temp barometric_press wind_speed bytes_read output out =
           (out @ takeWhile isprint (drop (nat output) air_temp) @ [CHR '' ''] @ rest,
            Inl OutOfBounds)"
proof -
  let ?run = "takeWhile isprint (drop (nat output) air_temp)"
  have p: "write_line air_temp output 0 out = (out @ ?run, Inr (int (length ?run) + 2))"
    using assms(1-4) by (simp add: write_line_primary_terminated)
  have pos: "0 \<le> output + 19" using assms(1) by simp
  obtain o2 r2 where b: "write_line barometric_press output 19 ((out @ ?run) @ [CHR '' '']) = (o2, r2)"
    by (cases "write_line barometric_press output 19 ((out @ ?run) @ [CHR '' ''])")
  have o2: "o2 = (out @ ?run) @ [CHR '' ''] @
              takeWhile isprint (drop (nat (output + 19)) barometric_press)"
    using b by (simp add: write_line_run [OF pos])
  show ?thesis
  proof (cases r2)
    case (Inl e)
    then show ?thesis
      using assms(2) p b o2 by (subst merge_loop.simps) (cases e, simp)
  next
    case (Inr w2)
    then have "\<not> int (length barometric_press) \<le> output + 19"
      using b pos by (auto simp: write_line_run split: if_splits)
    then have "int (length wind_speed) \<le> output + 19" using assms(5) by simp
    then have "write_line wind_speed output 19 (o2 @ [CHR '' '']) = (o2 @ [CHR '' ''], Inl OutOfBounds)"
      using pos by (simp add: write_line_outside)
    then show ?thesis
      using assms(2) p b o2 Inr by (subst merge_loop.simps) simp
  qed
qed

text \<open>The second row of a second page that was cut off after 25 bytes.\<close>

theorem merge_loop_short_secondary_witness:
  "(0::int) \<le> 27 \<and> (27::int) < 54 \<and>
   int (length (''2015_02_03 09:02:34 30.07'' @ [CHR 0x00])) \<le> 27 + 19 \<and>
   (\<exists>rest. merge_loop
      ((''2015_02_03 09:02:34 38.86'' @ [CHR 0x0D, CHR 0x0A] @
        ''2015_02_03 09:07:34 38.90'' @ [CHR 0x0D, CHR 0x0A]) @ [CHR 0x00])
      (''2015_02_03 09:02:34 30.07'' @ [CHR 0x00])
      ((''2015_02_03 09:02:34  3.00'' @ [CHR 0x0D, CHR 0x0A] @
        ''2015_02_03 09:07:34  4.00'' @ [CHR 0x0D, CHR 0x0A]) @ [CHR 0x00])
      54 27 [] =
    (''2015_02_03 09:07:34 38.90'' @ [CHR '' ''] @ rest, Inl OutOfBounds))"
proof -
  let ?page = "''2015_02_03 09:02:34 38.86'' @ [CHR 0x0D, CHR 0x0A] @
        ''2015_02_03 09:07:34 38.90'' @ [CHR 0x0D, CHR 0x0A]"
  let ?bar = "''2015_02_03 09:02:34 30.07'' @ [CHR 0x00]"
  have h: "(0::int) \<le> 27" "(27::int) < 54" "?page @ [CHR 0x00] = ?page @ [CHR 0x00]"
    "54 = int (length ?page)" by simp_all
  have s: "int (length ?bar) \<le> 27 + 19" by simp
  have e: "takeWhile isprint (drop (nat 27) (?page @ [CHR 0x00])) = ''2015_02_03 09:07:34 38.90''"
    by code_simp
  from s have "int (length ?bar) \<le> 27 + 19 \<or> int (length wind) \<le> 27 + 19" for wind :: string
    by (rule disjI1)
  from merge_loop_short_secondary [OF h this, of _ "[]"] h(1,2) s show ?thesis
    unfolding e append_Nil by blast
qed

text \<open>
  Claim C5 fails as stated. The second page is cut off after 25 bytes; in the second row
  the offset is 27. The loop writes the row's date, time and first value and then reads
  outside the second buffer.
\<close>

theorem merge_loop_truncated_page:
  "merge_loop
      ((''2015_02_03 09:02:34 38.86'' @ [CHR 0x0D, CHR 0x0A] @
        ''2015_02_03 09:07:34 38.90'' @ [CHR 0x0D, CHR 0x0A]) @ [CHR 0x00])
      (''2015_02_03 09:02:34 30.07'' @ [CHR 0x00])
      ((''2015_02_03 09:02:34  3.00'' @ [CHR 0x0D, CHR 0x0A] @
        ''2015_02_03 09:07:34  4.00'' @ [CHR 0x0D, CHR 0x0A]) @ [CHR 0x00])
      54 0 [] =
    (''2015_02_03 09:02:34 38.86  30.07   3.00'' @ [CHR 0x0A] @
     ''2015_02_03 09:07:34 38.90 '', Inl OutOfBounds)"
  by code_simp

lemma merge_loop_stops:
  "snd (merge_loop air_temp barometric_press wind_speed bytes_read output out) = Inr fin \<Longrightarrow>
     bytes_read \<le> fin \<and> output \<le> fin"
proof (induction air_temp barometric_press wind_speed bytes_read "output" out
       rule: merge_loop.induct)
  case (1 air_temp barometric_press wind_speed bytes_read outp out)
  show ?case
  proof (cases "outp < bytes_read")
    case False
    with "1.prems" show ?thesis by (subst (asm) merge_loop.simps) simp
  next
    case True
    from "1.prems" True obtain o1 written o2 w2 o3 w3
      where a: "write_line air_temp outp 0 out = (o1, Inr written)"
        and b: "write_line barometric_press outp 19 (o1 @ [CHR '' '']) = (o2, Inr w2)"
        and c: "write_line wind_speed outp 19 (o2 @ [CHR '' '']) = (o3, Inr w3)"
        and r: "snd (merge_loop air_temp barometric_press wind_speed bytes_read
                       (outp + written) (o3 @ [CHR 0x0A])) = Inr fin"
      by (subst (asm) merge_loop.simps) (auto split: prod.splits sum.splits)
    have "0 < written"
      using a by (auto simp: write_line_def split: prod.splits sum.splits
                       dest!: write_line_loop_advances)
    moreover have "bytes_read \<le> fin \<and> outp + written \<le> fin"
      using True a b c r
      by (intro "1.IH" [of o1 "Inr written" written o2 "Inr w2" w2 o3 "Inr w3" w3]) simp_all
    ultimately show ?thesis by simp
  qed
qed


lemma merge_loop_ends:
  "(\<exists>out'. merge_loop air_temp barometric_press wind_speed bytes_read output out =
             (out', Inl OutOfBounds)) \<or>
   (\<exists>out' fin. merge_loop air_temp barometric_press wind_speed bytes_read output out =
                 (out', Inr fin) \<and> bytes_read \<le> fin \<and> output \<le> fin)"
proof (cases "merge_loop air_temp barometric_press wind_speed bytes_read output out")
  case (Pair out' r)
  show ?thesis
  proof (cases r)
    case (Inl e)
    then show ?thesis using Pair by (cases e) simp
  next
    case (Inr fin)
    then have "snd (merge_loop air_temp barometric_press wind_speed bytes_read output out) = Inr fin"
      using Pair by simp
    from merge_loop_stops [OF this] show ?thesis using Pair Inr by simp
  qed
qed




subsection \<open>Rounding to the nearest float\<close>

lemma bit_length_nonpos: "n \<le> 0 \<Longrightarrow> bit_length n = 0"
  by (subst bit_length.simps) simp

lemma bit_length_pos: "0 < n \<Longrightarrow> bit_length n = Suc (bit_length (n div 2))"
  by (subst bit_length.simps) simp

lemma bit_length_bounds:
  "0 < n \<Longrightarrow> 2 ^ (bit_length n - 1) \<le> n \<and> n < 2 ^ bit_length n"
proof (induction n rule: bit_length.induct)
  case (1 n)
  show ?case
  proof (cases "n div 2 \<le> 0")
    case True
    then have "n = 1" using "1.prems" by linarith
    then show ?thesis by (simp add: bit_length_pos bit_length_nonpos)
  next
    case False
    then have ih: "2 ^ (bit_length (n div 2) - 1) \<le> n div 2" "n div 2 < 2 ^ bit_length (n div 2)"
      using "1.IH" "1.prems" by simp_all
    from False obtain j where j: "bit_length (n div 2) = Suc j"
      by (cases "bit_length (n div 2)") (simp_all add: bit_length_pos)
    have "2 * (n div 2) \<le> n" "n < 2 * (n div 2) + 2" by linarith+
    then show ?thesis
      using ih "1.prems" by (simp add: bit_length_pos j)
  qed
qed

lemma bit_length_le:
  assumes "n < 2 ^ j"
  shows "bit_length n \<le> j"
proof (cases "0 < n")
  case True
  from bit_length_bounds [OF True] assms have "(2::int) ^ (bit_length n - 1) < 2 ^ j" by linarith
  then have "bit_length n - 1 < j" by (simp add: power_strict_increasing_iff)
  then show ?thesis by linarith
next
  case False
  then show ?thesis by (simp add: bit_length_nonpos)
qed

lemma uint_pack:
  assumes "0 \<le> b" "b < 2 ^ 31"
  shows "uint (pack s b) = (if s then 2 ^ 31 else 0) + b"
proof -
  let ?k = "(if s then 2 ^ 31 else 0) + b"
  have r: "0 \<le> ?k" "?k < 2 ^ 32" using assms by simp_all
  have "uint (pack s b) = take_bit LENGTH(32) ?k"
    unfolding pack_def by (rule uint_word_of_int_eq)
  also have "LENGTH(32) = 32" by simp
  also have "take_bit 32 ?k = ?k" using r by (rule take_bit_int_eq_self)
  finally show ?thesis .
qed

lemma shift_fields:
  fixes j b :: int
  shows "(8388608 * j + b) div 8388608 = j + b div 8388608"
    and "(8388608 * j + b) mod 8388608 = b mod 8388608"
  by simp_all

lemma small_fields:
  fixes r :: int
  assumes "0 \<le> r" "r < 8388608"
  shows "r div 8388608 = 0" "r mod 8388608 = r"
  using assms by simp_all

lemma fields_pack:
  assumes "0 \<le> b" "b < 255 * 2 ^ 23"
  shows "sign_bit (pack s b) = s" "exponent (pack s b) = nat (b div 2 ^ 23)"
    "fraction (pack s b) = b mod 2 ^ 23" "exponent (pack s b) < 255"
proof -
  have u: "uint (pack s b) = (if s then 2 ^ 31 else 0) + b"
    using assms by (intro uint_pack) simp_all
  obtain q r where d: "b = 8388608 * q + r" "0 \<le> r" "r < 8388608"
      "b div 8388608 = q" "b mod 8388608 = r"
    by (rule split_fields)
  have q: "0 \<le> q" "q < 255" using d(1-3) assms by auto
  have "2147483648 + b = 8388608 * 256 + b" by simp
  then have e: "(2147483648 + b) div 8388608 = 256 + q" "(2147483648 + b) mod 8388608 = r"
    using shift_fields [of 256 b] d(4,5) by simp_all
  show "sign_bit (pack s b) = s" using assms by (simp add: sign_bit_def u)
  show x: "exponent (pack s b) = nat (b div 2 ^ 23)"
    using q by (simp add: exponent_def u e d(4))
  show "fraction (pack s b) = b mod 2 ^ 23"
    by (simp add: fraction_def u e d(5))
  show "exponent (pack s b) < 255" using q by (simp add: x d(4))
qed

lemma magnitude_pack:
  assumes "0 \<le> m" "m \<le> 2 ^ 24" "k = 0 \<or> 2 ^ 23 \<le> m" "int k * 2 ^ 23 + m < 255 * 2 ^ 23"
  shows "magnitude (pack s (int k * 2 ^ 23 + m)) = m * 2 ^ k"
proof -
  define B where "B = int k * 2 ^ 23 + m"
  have b: "0 \<le> B" "B < 255 * 2 ^ 23" using assms(1,4) by (simp_all add: B_def)
  note f = fields_pack [OF b, of s]
  have mag: "magnitude (pack s B) =
      (if nat (B div 8388608) = 0 then B mod 8388608
       else (8388608 + B mod 8388608) * 2 ^ (nat (B div 8388608) - 1))"
    by (simp add: magnitude_def f)
  consider "k = 0" "m < 2 ^ 23" | "2 ^ 23 \<le> m" "m < 2 ^ 24" | "m = 2 ^ 24"
    using assms(2,3) by fastforce
  then have "magnitude (pack s B) = m * 2 ^ k"
  proof cases
    case 1
    then have "B div 8388608 = 0" "B mod 8388608 = m"
      using assms(1) by (simp_all add: B_def)
    then show ?thesis unfolding mag using 1 by simp
  next
    case 2
    have "B = 8388608 * (int k + 1) + (m - 8388608)" by (simp add: B_def)
    moreover have "0 \<le> m - 8388608" "m - 8388608 < 8388608" using 2 by simp_all
    ultimately have "B div 8388608 = int k + 1" "B mod 8388608 = m - 8388608"
      using shift_fields [of "int k + 1" "m - 8388608"] small_fields [of "m - 8388608"]
      by simp_all
    then show ?thesis unfolding mag by (simp add: nat_add_distrib)
  next
    case 3
    have "B = 8388608 * (int k + 2) + 0" using 3 by (simp add: B_def)
    then have "B div 8388608 = int k + 2" "B mod 8388608 = 0"
      using shift_fields [of "int k + 2" 0] by simp_all
    then show ?thesis unfolding mag using 3 by (simp add: nat_add_distrib)
  qed
  then show ?thesis by (simp only: B_def)
qed

lemma bit_length_small:
  assumes "bit_length n \<le> j"
  shows "n < 2 ^ j"
proof (cases "0 < n")
  case True
  have "n < 2 ^ bit_length n" using bit_length_bounds [OF True] by simp
  also have "(2::int) ^ bit_length n \<le> 2 ^ j" using assms by (intro power_increasing) simp_all
  finally show ?thesis .
next
  case False
  have "(0::int) < 2 ^ j" by simp
  with False show ?thesis by linarith
qed

lemma int_div_bounds:
  fixes a b :: int
  assumes "0 < b"
  shows "b * (a div b) \<le> a" "a < b * (a div b) + b"
proof -
  have "a = b * (a div b) + a mod b" by simp
  moreover have "0 \<le> a mod b" "a mod b < b" using assms by simp_all
  ultimately show "b * (a div b) \<le> a" "a < b * (a div b) + b" by linarith+
qed

lemma round_mag_shape:
  assumes "0 \<le> p" "0 < q"
  obtains k m where
    "round_mag p q =
       (if 255 * 2 ^ 23 \<le> int k * 2 ^ 23 + m then 255 * 2 ^ 23 else int k * 2 ^ 23 + m)"
    "k = bit_length (p div q) - 24"
    "\<bar>2 * (m * (q * 2 ^ k)) - 2 * p\<bar> \<le> q * 2 ^ k"
    "0 \<le> m" "m \<le> 2 ^ 24" "k = 0 \<or> 2 ^ 23 \<le> m"
    "0 < k \<longrightarrow> 2 ^ 23 * (q * 2 ^ k) \<le> p"
proof -
  define k where "k = bit_length (p div q) - 24"
  define d where "d = q * 2 ^ k"
  define m0 where "m0 = p div d"
  define r where "r = p mod d"
  define m where "m = (if d < 2 * r \<or> (2 * r = d \<and> odd m0) then m0 + 1 else m0)"
  have d: "0 < d" using assms(2) by (simp add: d_def)
  have p: "p = d * m0 + r" by (simp add: m0_def r_def)
  have r: "0 \<le> r" "r < d" using d by (simp_all add: r_def)
  have m0: "0 \<le> m0" using assms(1) d by (simp add: m0_def pos_imp_zdiv_nonneg_iff)
  have F: "m0 = (p div q) div 2 ^ k"
    by (simp add: m0_def d_def zdiv_zmult2_eq)
  have F0: "0 \<le> p div q" using assms by (simp add: pos_imp_zdiv_nonneg_iff)
  have err: "\<bar>2 * (m * d) - 2 * p\<bar> \<le> d"
  proof (cases "d < 2 * r \<or> (2 * r = d \<and> odd m0)")
    case True
    then have "m = m0 + 1" by (simp add: m_def)
    then have "2 * (m * d) - 2 * p = 2 * d - 2 * r" by (simp add: p algebra_simps)
    then show ?thesis using True r by auto
  next
    case False
    then have "m = m0" by (simp add: m_def)
    then have "2 * (m * d) - 2 * p = - (2 * r)" by (simp add: p algebra_simps)
    then show ?thesis using False r by auto
  qed
  have mm: "m0 \<le> m" "m \<le> m0 + 1" by (simp_all add: m_def)
  have range: "m0 < 2 ^ 24 \<and> (k = 0 \<or> 2 ^ 23 \<le> m0) \<and> (0 < k \<longrightarrow> 2 ^ 23 * d \<le> p)"
  proof (cases "k = 0")
    case True
    then have "bit_length (p div q) \<le> 24" by (simp add: k_def)
    then have "p div q < 2 ^ 24" by (rule bit_length_small)
    then show ?thesis using True by (simp add: F)
  next
    case False
    then have bl: "bit_length (p div q) = k + 24" by (simp add: k_def)
    then have pos: "0 < p div q" using F0 by (cases "p div q = 0") (simp_all add: bit_length_nonpos)
    have e1: "k + 24 - 1 = k + 23" by simp
    from bit_length_bounds [OF pos]
    have lo: "2 ^ (k + 23) \<le> p div q" and hi: "p div q < 2 ^ (k + 24)"
      unfolding bl e1 by blast+
    define X :: int where "X = 2 ^ k"
    have X: "0 < X" by (simp add: X_def)
    have lo': "X * 8388608 \<le> p div q" and hi': "p div q < X * 16777216"
      using lo hi by (simp_all add: X_def power_add)
    note db = int_div_bounds [OF X, of "p div q", unfolded X_def, folded F, folded X_def]
    have "X * 8388608 < X * m0 + X" using lo' db(2) by linarith
    also have "X * m0 + X = X * (m0 + 1)" by (simp add: algebra_simps)
    finally have "8388608 < m0 + 1" using X by (simp only: mult_less_cancel_left_pos)
    then have a: "2 ^ 23 \<le> m0" by simp
    have "X * m0 < X * 16777216" using hi' db(1) by linarith
    then have "m0 < 16777216" using X by (simp only: mult_less_cancel_left_pos)
    then have b: "m0 < 2 ^ 24" by simp
    have "q * (X * 8388608) \<le> q * (p div q)" using lo' assms(2) by (intro mult_left_mono) simp_all
    also have "\<dots> \<le> p" using int_div_bounds(1) [OF assms(2), of p] .
    finally have "2 ^ 23 * d \<le> p" by (simp add: d_def X_def mult_ac)
    with a b show ?thesis by simp
  qed
  show ?thesis
  proof (rule that [of k m])
    show "round_mag p q =
       (if 255 * 2 ^ 23 \<le> int k * 2 ^ 23 + m then 255 * 2 ^ 23 else int k * 2 ^ 23 + m)"
      by (simp add: round_mag_def Let_def k_def d_def m0_def r_def m_def)
    show "k = bit_length (p div q) - 24" by (rule k_def)
    show "\<bar>2 * (m * (q * 2 ^ k)) - 2 * p\<bar> \<le> q * 2 ^ k" using err by (simp add: d_def)
    show "0 \<le> m" using m0 mm by simp
    show "m \<le> 2 ^ 24" using range mm by simp
    show "k = 0 \<or> 2 ^ 23 \<le> m" using range mm by auto
    show "0 < k \<longrightarrow> 2 ^ 23 * (q * 2 ^ k) \<le> p" using range by (simp add: d_def)
  qed
qed

lemma magnitude_nonneg: "0 \<le> magnitude w"
  using fraction_bounds [of w] by (simp add: magnitude_def)

lemma magnitude_finite:
  assumes "exponent w < 255"
  shows "magnitude w \<le> 16777215 * 2 ^ 253"
proof (cases "exponent w = 0")
  case True
  have "(8388608::int) \<le> 16777215 * 2 ^ 253" by simp
  then show ?thesis using True fraction_bounds [of w] by (simp add: magnitude_def)
next
  case False
  have "(2 ^ 23 + fraction w) * 2 ^ (exponent w - 1) \<le> 16777215 * 2 ^ (exponent w - 1)"
    using fraction_bounds [of w] by (intro mult_right_mono) simp_all
  also have "\<dots> \<le> 16777215 * 2 ^ 253"
    using assms by (intro mult_left_mono power_increasing) simp_all
  finally show ?thesis using False by (simp add: magnitude_def)
qed

lemma exponent_quiet: "exponent (quiet w) = exponent w"
proof -
  have "uint (quiet w) = uint w OR 4194304" by (simp add: quiet_def uint_or)
  moreover have "drop_bit 23 (uint w OR 4194304) = drop_bit 23 (uint w)"
    by (simp add: drop_bit_or)
  ultimately show ?thesis by (simp add: exponent_def drop_bit_eq_div)
qed

lemma exponent_le_255: "exponent w \<le> 255"
proof -
  have "uint w div 2 ^ 23 mod 256 < 256" by simp
  then show ?thesis unfolding exponent_def by linarith
qed

lemma not_finite_iff: "\<not> exponent w < 255 \<longleftrightarrow> is_nan w \<or> is_inf w"
  using exponent_le_255 [of w] by (auto simp: is_nan_def is_inf_def)

lemma exponent_default_nan: "exponent default_nan = 255"
  by code_simp

lemma exponent_pack_inf: "exponent (pack s (255 * 2 ^ 23)) = 255"
  by (cases s) (simp_all add: exponent_def uint_pack)

lemma fadd_not_finite:
  assumes "\<not> exponent a < 255 \<or> \<not> exponent b < 255"
  shows "\<not> exponent (fadd a b) < 255"
proof -
  from assms have "is_nan a \<or> is_inf a \<or> is_nan b \<or> is_inf b"
    by (auto simp: not_finite_iff)
  then have "exponent (fadd a b) = 255"
    by (auto simp: fadd_def exponent_quiet exponent_default_nan is_nan_def is_inf_def)
  then show ?thesis by simp
qed

lemma foldl_fadd_finite:
  assumes "exponent (foldl fadd t xs) < 255"
  shows "exponent t < 255 \<and> list_all (\<lambda>x. exponent x < 255) xs"
  using assms
proof (induction xs arbitrary: t)
  case Nil
  then show ?case by simp
next
  case (Cons x xs)
  then have "exponent (fadd t x) < 255" "list_all (\<lambda>x. exponent x < 255) xs" by simp_all
  moreover from this(1) have "exponent t < 255 \<and> exponent x < 255"
    using fadd_not_finite [of t x] by blast
  ultimately show ?case by simp
qed

lemma magnitude_pack_zero: "magnitude (pack s 0) = 0"
  using magnitude_pack [of 0 0 s] by simp

lemma fadd_error:
  assumes "exponent a < 255" "exponent b < 255" "exponent (fadd a b) < 255"
  shows "2 ^ 24 * \<bar>signed_mag (fadd a b) - (signed_mag a + signed_mag b)\<bar>
           \<le> \<bar>signed_mag a + signed_mag b\<bar>"
proof -
  define s where "s = signed_mag a + signed_mag b"
  have fa: "fadd a b = (if s = 0 then pack (sign_bit a \<and> sign_bit b) 0
                        else pack (s < 0) (round_mag \<bar>s\<bar> 1))"
    using assms(1,2) by (simp add: fadd_def is_nan_def is_inf_def s_def Let_def)
  show ?thesis
  proof (cases "s = 0")
    case True
    then have "signed_mag (fadd a b) = 0"
      by (simp add: fa signed_mag_def magnitude_pack_zero)
    then show ?thesis using True by (simp add: s_def)
  next
    case False
    define p where "p = \<bar>s\<bar>"
    have p0: "0 \<le> p" and ppos: "0 < p" using False by (simp_all add: p_def)
    obtain k m where km:
      "round_mag p 1 =
         (if 255 * 2 ^ 23 \<le> int k * 2 ^ 23 + m then 255 * 2 ^ 23 else int k * 2 ^ 23 + m)"
      "k = bit_length (p div 1) - 24"
      "\<bar>2 * (m * (1 * 2 ^ k)) - 2 * p\<bar> \<le> 1 * 2 ^ k"
      "0 \<le> m" "m \<le> 2 ^ 24" "k = 0 \<or> 2 ^ 23 \<le> m"
      "0 < k \<longrightarrow> 2 ^ 23 * (1 * 2 ^ k) \<le> p"
      using round_mag_shape [OF p0, of 1] by (metis zero_less_one)
    have r: "fadd a b = pack (s < 0) (round_mag p 1)" using False by (simp add: fa p_def)
    have b: "int k * 2 ^ 23 + m < 255 * 2 ^ 23"
    proof (rule ccontr)
      assume "\<not> int k * 2 ^ 23 + m < 255 * 2 ^ 23"
      then have "round_mag p 1 = 255 * 2 ^ 23" by (simp add: km(1))
      then have "exponent (fadd a b) = 255" by (simp only: r exponent_pack_inf)
      with assms(3) show False by simp
    qed
    have b0: "0 \<le> int k * 2 ^ 23 + m" using km(4) by simp
    have r': "fadd a b = pack (s < 0) (int k * 2 ^ 23 + m)" using b by (simp add: r km(1))
    define X :: int where "X = 2 ^ k"
    have X: "0 < X" by (simp add: X_def)
    have M: "magnitude (fadd a b) = m * X"
      unfolding r' X_def using km(4,5,6) b by (rule magnitude_pack)
    note f = fields_pack [OF b0 b, of "s < 0", folded r']
    define T where "T = m * X"
    have "2 * T - 2 * p = 2 * (T - p)" by simp
    then have "\<bar>2 * T - 2 * p\<bar> = 2 * \<bar>T - p\<bar>" by (simp only: abs_mult abs_numeral)
    moreover have "\<bar>2 * T - 2 * p\<bar> \<le> X" using km(3) by (simp add: T_def X_def)
    ultimately have errT: "2 * \<bar>T - p\<bar> \<le> X" by simp
    have bound: "16777216 * \<bar>T - p\<bar> \<le> p"
    proof (cases "k = 0")
      case True
      then have "2 * \<bar>T - p\<bar> \<le> 1" using errT by (simp add: X_def)
      moreover have "0 \<le> \<bar>T - p\<bar>" by (rule abs_ge_zero)
      ultimately have "\<bar>T - p\<bar> = 0" by presburger
      then show ?thesis using p0 by simp
    next
      case False
      then have "8388608 * X \<le> p" using km(7) by (simp add: X_def)
      then show ?thesis using errT by linarith
    qed
    have "signed_mag (fadd a b) - s = (if s < 0 then - (T - p) else T - p)"
      by (auto simp add: signed_mag_def f M T_def p_def)
    then have "\<bar>signed_mag (fadd a b) - s\<bar> = \<bar>T - p\<bar>" by (simp add: abs_minus_commute)
    then show ?thesis using bound by (simp add: s_def [symmetric] p_def)
  qed
qed

lemma bit_length_greater:
  assumes "2 ^ j \<le> n"
  shows "j < bit_length n"
proof -
  have "(0::int) < 2 ^ j" by simp
  with assms have n: "0 < n" by linarith
  have "n < 2 ^ bit_length n" using bit_length_bounds [OF n] by simp
  with assms have "(2::int) ^ j < 2 ^ bit_length n" by linarith
  then show ?thesis by (simp add: power_strict_increasing_iff)
qed

lemma float_of_int_error:
  assumes "0 < c" "c < 2 ^ 31"
  shows "\<not> sign_bit (float_of_int c) \<and> exponent (float_of_int c) < 255 \<and>
         2 ^ 149 \<le> magnitude (float_of_int c) \<and>
         2 ^ 24 * \<bar>magnitude (float_of_int c) - c * 2 ^ 149\<bar> \<le> c * 2 ^ 149"
proof -
  define p where "p = c * 2 ^ 149"
  have "1 * 2 ^ 149 \<le> c * (2 ^ 149 :: int)" using assms(1) by (intro mult_right_mono) simp_all
  then have plo: "2 ^ 149 \<le> p" by (simp add: p_def)
  then have p0: "0 \<le> p" by simp
  obtain k m where km:
    "round_mag p 1 =
       (if 255 * 2 ^ 23 \<le> int k * 2 ^ 23 + m then 255 * 2 ^ 23 else int k * 2 ^ 23 + m)"
    "k = bit_length (p div 1) - 24"
    "\<bar>2 * (m * (1 * 2 ^ k)) - 2 * p\<bar> \<le> 1 * 2 ^ k"
    "0 \<le> m" "m \<le> 2 ^ 24" "k = 0 \<or> 2 ^ 23 \<le> m"
    "0 < k \<longrightarrow> 2 ^ 23 * (1 * 2 ^ k) \<le> p"
    using round_mag_shape [OF p0, of 1] by (metis zero_less_one)
  have "p < 2 ^ 31 * 2 ^ 149" unfolding p_def using assms(2) by (intro mult_strict_right_mono) simp_all
  then have "p < 2 ^ 180" by simp
  then have "bit_length p \<le> 180" by (rule bit_length_le)
  then have k: "k \<le> 156" by (simp add: km(2))
  have "149 < bit_length p" using plo by (rule bit_length_greater)
  then have k': "126 \<le> k" by (simp add: km(2))
  then have kpos: "0 < k" by simp
  then have mlo: "2 ^ 23 \<le> m" using km(6) by simp
  define X :: int where "X = 2 ^ k"
  have X: "0 < X" by (simp add: X_def)
  have "(2::int) ^ 126 \<le> 2 ^ k" using k' by (intro power_increasing) simp_all
  then have Xlo: "2 ^ 126 \<le> X" by (simp add: X_def)
  have b: "int k * 2 ^ 23 + m < 255 * 2 ^ 23" using k km(5) by simp
  have b0: "0 \<le> int k * 2 ^ 23 + m" using km(4) by simp
  have r: "round_mag p 1 = int k * 2 ^ 23 + m" using b by (simp add: km(1))
  have f: "float_of_int c = pack False (int k * 2 ^ 23 + m)"
    using assms(1) r by (simp add: float_of_int_def p_def)
  have M: "magnitude (float_of_int c) = m * X"
    unfolding f X_def using km(4,5,6) b by (rule magnitude_pack)
  note fl = fields_pack [OF b0 b, of False, folded f]
  have "2 ^ 23 * 2 ^ 126 \<le> m * X" using mlo Xlo by (intro mult_mono) simp_all
  then have lo: "2 ^ 149 \<le> m * X" by simp
  define T where "T = m * X"
  have "2 * T - 2 * p = 2 * (T - p)" by simp
  then have "\<bar>2 * T - 2 * p\<bar> = 2 * \<bar>T - p\<bar>" by (simp only: abs_mult abs_numeral)
  moreover have "\<bar>2 * T - 2 * p\<bar> \<le> X" using km(3) by (simp add: T_def X_def)
  ultimately have errT: "2 * \<bar>T - p\<bar> \<le> X" by simp
  have "8388608 * X \<le> p" using km(7) kpos by (simp add: X_def)
  then have "16777216 * \<bar>T - p\<bar> \<le> p" using errT by linarith
  then have "2 ^ 24 * \<bar>m * X - c * 2 ^ 149\<bar> \<le> c * 2 ^ 149" by (simp add: T_def p_def)
  then show ?thesis using lo fl by (simp only: M) simp
qed

lemma fdiv_error:
  assumes "exponent s < 255" "exponent b < 255" "\<not> sign_bit b" "2 ^ 149 \<le> magnitude b"
  shows "exponent (fdiv s b) < 255 \<and>
         2 ^ 25 * \<bar>signed_mag (fdiv s b) * magnitude b - signed_mag s * 2 ^ 149\<bar>
           \<le> 2 ^ 24 * magnitude b + 2 * (\<bar>signed_mag s\<bar> * 2 ^ 149)"
proof -
  define S where "S = magnitude s"
  define B where "B = magnitude b"
  define W :: int where "W = 2 ^ 149"
  have W: "0 < W" by (simp add: W_def)
  have WB: "W \<le> B" using assms(4) by (simp add: W_def B_def)
  have B: "0 < B" using W WB by linarith
  have S0: "0 \<le> S" by (simp add: S_def magnitude_nonneg)
  have Smax: "S \<le> 16777215 * 2 ^ 253" unfolding S_def using assms(1) by (rule magnitude_finite)
  have p0: "0 \<le> S * W" using S0 W by simp
  have "magnitude b \<noteq> 0" using B by (simp add: B_def)
  then have fd: "fdiv s b = pack (sign_bit s) (round_mag (S * W) B)"
    using assms(1,2,3) by (simp add: fdiv_def is_nan_def is_inf_def S_def W_def B_def)
  obtain k m where km:
    "round_mag (S * W) B =
       (if 255 * 2 ^ 23 \<le> int k * 2 ^ 23 + m then 255 * 2 ^ 23 else int k * 2 ^ 23 + m)"
    "k = bit_length ((S * W) div B) - 24"
    "\<bar>2 * (m * (B * 2 ^ k)) - 2 * (S * W)\<bar> \<le> B * 2 ^ k"
    "0 \<le> m" "m \<le> 2 ^ 24" "k = 0 \<or> 2 ^ 23 \<le> m"
    "0 < k \<longrightarrow> 2 ^ 23 * (B * 2 ^ k) \<le> S * W"
    by (rule round_mag_shape [OF p0 B])
  define X :: int where "X = 2 ^ k"
  have X: "0 < X" by (simp add: X_def)
  define Y where "Y = B * X"
  have Y: "0 < Y" using B X by (simp add: Y_def)
  define P where "P = S * W"
  define T where "T = m * X * B"
  have TY: "T = m * Y" by (simp add: T_def Y_def mult_ac)
  have err: "\<bar>2 * T - 2 * P\<bar> \<le> Y"
    using km(3) by (simp add: T_def P_def Y_def X_def mult_ac)
  have rel: "0 < k \<longrightarrow> 8388608 * Y \<le> P"
    using km(7) by (simp add: Y_def X_def P_def)
  have "B * ((S * W) div B) \<le> S * W" using B by (rule int_div_bounds(1))
  moreover have d0: "0 \<le> (S * W) div B"
    using p0 by (simp only: pos_imp_zdiv_nonneg_iff [OF B])
  then have "W * ((S * W) div B) \<le> B * ((S * W) div B)"
    using WB by (intro mult_right_mono) simp_all
  ultimately have "((S * W) div B) * W \<le> S * W" by (simp add: mult.commute)
  then have "(S * W) div B \<le> S" using W by (simp only: mult_le_cancel_right_pos)
  also have "S < 2 ^ 277" using Smax by simp
  finally have "bit_length ((S * W) div B) \<le> 277" by (rule bit_length_le)
  then have k: "k \<le> 253" by (simp add: km(2))
  have bb: "int k * 2 ^ 23 + m < 255 * 2 ^ 23"
  proof (cases "k = 253")
    case False
    then have "k \<le> 252" using k by simp
    then show ?thesis using km(5) by simp
  next
    case True
    have "S \<le> 16777215 * X" using Smax True by (simp add: X_def)
    then have "S * W \<le> (16777215 * X) * W" using W by (intro mult_right_mono) simp_all
    also have "(16777215 * X) * W \<le> (16777215 * X) * B"
      using WB X by (intro mult_left_mono) simp_all
    finally have PY: "P \<le> 16777215 * Y" by (simp add: P_def Y_def mult_ac)
    have "2 * T \<le> 2 * P + Y" using err by linarith
    then have "(2 * m) * Y \<le> 33554431 * Y" using PY by (simp add: TY)
    then have "2 * m \<le> 33554431" using Y by (simp only: mult_le_cancel_right_pos)
    then show ?thesis using True by simp
  qed
  have b0: "0 \<le> int k * 2 ^ 23 + m" using km(4) by simp
  have r: "fdiv s b = pack (sign_bit s) (int k * 2 ^ 23 + m)"
    using bb by (simp add: fd km(1))
  have M: "magnitude (fdiv s b) = m * X"
    unfolding r X_def using km(4,5,6) bb by (rule magnitude_pack)
  note f = fields_pack [OF b0 bb, of "sign_bit s", folded r]
  have "2 * T - 2 * P = 2 * (T - P)" by simp
  then have "\<bar>2 * T - 2 * P\<bar> = 2 * \<bar>T - P\<bar>" by (simp only: abs_mult abs_numeral)
  then have errT: "2 * \<bar>T - P\<bar> \<le> Y" using err by simp
  have P0: "0 \<le> P" using p0 by (simp add: P_def)
  have "33554432 * \<bar>T - P\<bar> \<le> 16777216 * B + 2 * P"
  proof (cases "k = 0")
    case True
    then have "2 * \<bar>T - P\<bar> \<le> B" using errT by (simp add: Y_def X_def)
    then show ?thesis using P0 by linarith
  next
    case False
    then have "8388608 * Y \<le> P" using rel by simp
    then show ?thesis using errT B by linarith
  qed
  then have bound: "2 ^ 25 * \<bar>m * X * B - S * W\<bar> \<le> 2 ^ 24 * B + 2 * (S * W)"
    by (simp add: T_def P_def)
  have "signed_mag (fdiv s b) * B - signed_mag s * W =
          (if sign_bit s then - (m * X * B - S * W) else m * X * B - S * W)"
    by (simp add: signed_mag_def f M S_def)
  then have "\<bar>signed_mag (fdiv s b) * B - signed_mag s * W\<bar> = \<bar>m * X * B - S * W\<bar>"
    by (simp add: abs_minus_commute)
  moreover have "\<bar>signed_mag s\<bar> = S" using S0 by (simp add: signed_mag_def S_def)
  ultimately have "2 ^ 25 * \<bar>signed_mag (fdiv s b) * B - signed_mag s * W\<bar>
      \<le> 2 ^ 24 * B + 2 * (\<bar>signed_mag s\<bar> * W)"
    using bound by simp
  then show ?thesis using f(4) by (simp only: B_def W_def) 
qed

subsection \<open>The mean\<close>

lemma mean_loop_foldl:
  assumes "0 \<le> x" "x \<le> c" "c = int (length v)"
  shows "mean_loop v c x t = Inr (foldl fadd t (drop (nat x) v))"
  using assms
proof (induction v c x t rule: mean_loop.induct)
  case (1 v c x t)
  show ?case
  proof (cases "x < c")
    case True
    have d: "deref v x = Inr (v ! nat x)" using True "1.prems" by (simp add: deref_def)
    have dr: "drop (nat x) v = v ! nat x # drop (nat (x + 1)) v"
      using True "1.prems" Cons_nth_drop_Suc [of "nat x" v] by (simp add: nat_add_distrib)
    have "mean_loop v c (x + 1) (fadd t (v ! nat x)) =
            Inr (foldl fadd (fadd t (v ! nat x)) (drop (nat (x + 1)) v))"
      using True "1.prems" by (intro "1.IH" [OF True d]) simp_all
    then show ?thesis using True by (subst mean_loop.simps) (simp add: d dr)
  next
    case False
    then have "x = c" using "1.prems" by simp
    then show ?thesis using "1.prems" by (subst mean_loop.simps) simp
  qed
qed

lemma valof_fadd_error:
  assumes "exponent a < 255" "exponent b < 255" "exponent (fadd a b) < 255"
  shows "\<bar>valof (fadd a b) - (valof a + valof b)\<bar> \<le> \<bar>valof a + valof b\<bar> / 2 ^ 24"
proof -
  define R A B where "R = signed_mag (fadd a b)" and "A = signed_mag a" and "B = signed_mag b"
  define W :: rat where "W = 2 ^ 149"
  have W: "0 < W" by (simp add: W_def)
  have "2 ^ 24 * \<bar>R - (A + B)\<bar> \<le> \<bar>A + B\<bar>"
    unfolding R_def A_def B_def using assms by (rule fadd_error)
  then have "(of_int (2 ^ 24 * \<bar>R - (A + B)\<bar>) :: rat) \<le> of_int \<bar>A + B\<bar>"
    by (simp only: of_int_le_iff)
  then have i: "\<bar>of_int R - (of_int A + of_int B) :: rat\<bar> \<le> \<bar>of_int A + of_int B\<bar> / 2 ^ 24"
    by (simp add: pos_le_divide_eq mult.commute)
  have l: "valof (fadd a b) - (valof a + valof b) = (of_int R - (of_int A + of_int B)) / W"
    by (simp add: valof_def R_def A_def B_def W_def diff_divide_distrib add_divide_distrib)
  have r: "valof a + valof b = (of_int A + of_int B) / W"
    by (simp add: valof_def A_def B_def W_def add_divide_distrib)
  have "\<bar>of_int R - (of_int A + of_int B) :: rat\<bar> / W \<le> \<bar>of_int A + of_int B\<bar> / 2 ^ 24 / W"
    using i W by (simp only: divide_right_mono less_imp_le)
  moreover have "\<bar>valof (fadd a b) - (valof a + valof b)\<bar> = \<bar>of_int R - (of_int A + of_int B) :: rat\<bar> / W"
    using W by (simp only: l abs_divide abs_of_pos)
  moreover have "\<bar>valof a + valof b\<bar> / 2 ^ 24 = \<bar>of_int A + of_int B :: rat\<bar> / 2 ^ 24 / W"
    using W by (simp only: r abs_divide abs_of_pos) simp
  ultimately show ?thesis by (simp only:)
qed

lemma sum_list_abs_valof:
  "\<bar>sum_list (map valof xs)\<bar> \<le> sum_list (map (\<lambda>x. \<bar>valof x\<bar>) xs)"
  using sum_list_abs [of "map valof xs"] by (simp add: comp_def)

lemma sum_list_abs_nonneg: "0 \<le> sum_list (map (\<lambda>x. \<bar>valof x\<bar>) xs)"
  by (rule sum_list_nonneg) auto

lemma foldl_fadd_error:
  assumes "exponent (foldl fadd t xs) < 255"
  shows "\<bar>valof (foldl fadd t xs) - (valof t + sum_list (map valof xs))\<bar>
           \<le> ((1 + 1 / 2 ^ 24) ^ length xs - 1) * (\<bar>valof t\<bar> + sum_list (map (\<lambda>x. \<bar>valof x\<bar>) xs))"
  using assms
proof (induction xs arbitrary: t)
  case Nil
  then show ?case by simp
next
  case (Cons x xs)
  define u :: rat where "u = 1 / 2 ^ 24"
  define g where "g = (1 + u) ^ length xs"
  define A' where "A' = sum_list (map (\<lambda>x. \<bar>valof x\<bar>) xs)"
  define S' where "S' = sum_list (map valof xs)"
  define F where "F = valof (foldl fadd (fadd t x) xs)"
  define a b c where "a = valof t" and "b = valof x" and "c = valof (fadd t x)"
  define y where "y = \<bar>a\<bar> + \<bar>b\<bar>"
  have u: "0 \<le> u" by (simp add: u_def)
  have g: "1 \<le> g" unfolding g_def using u by (intro one_le_power) simp
  have A': "0 \<le> A'" unfolding A'_def by (rule sum_list_abs_nonneg)
  have y: "0 \<le> y" by (simp add: y_def)
  from Cons.prems have fin: "exponent (foldl fadd (fadd t x) xs) < 255" by simp
  then have ft': "exponent (fadd t x) < 255" using foldl_fadd_finite by blast
  then have ftx: "exponent t < 255" "exponent x < 255" using fadd_not_finite [of t x] by blast+
  have ih: "\<bar>F - (c + S')\<bar> \<le> (g - 1) * (\<bar>c\<bar> + A')"
    using Cons.IH [OF fin] by (simp add: F_def c_def S'_def g_def u_def A'_def)
  have e: "\<bar>c - (a + b)\<bar> \<le> u * \<bar>a + b\<bar>"
    using valof_fadd_error [OF ftx ft'] by (simp add: a_def b_def c_def u_def)
  have ab: "\<bar>a + b\<bar> \<le> y" by (simp add: y_def)
  have "u * \<bar>a + b\<bar> \<le> u * y" using ab u by (rule mult_left_mono)
  with e have e': "\<bar>c - (a + b)\<bar> \<le> u * y" by simp
  have "\<bar>c\<bar> \<le> \<bar>a + b\<bar> + \<bar>c - (a + b)\<bar>" by simp
  with e' ab have cy: "\<bar>c\<bar> \<le> (1 + u) * y" by (simp add: algebra_simps)
  have "(g - 1) * (\<bar>c\<bar> + A') \<le> (g - 1) * ((1 + u) * y + A')"
    using cy g by (intro mult_left_mono) simp_all
  with ih have ih': "\<bar>F - (c + S')\<bar> \<le> (g - 1) * ((1 + u) * y + A')" by simp
  have "F - (a + (b + S')) = (F - (c + S')) + (c - (a + b))" by simp
  then have "\<bar>F - (a + (b + S'))\<bar> \<le> \<bar>F - (c + S')\<bar> + \<bar>c - (a + b)\<bar>"
    by (simp only: abs_triangle_ineq)
  with ih' e' have 1: "\<bar>F - (a + (b + S'))\<bar> \<le> (g - 1) * ((1 + u) * y + A') + u * y" by simp
  have "0 \<le> u * g * A'" using u g A' by simp
  moreover have "((1 + u) * g - 1) * (y + A') - ((g - 1) * ((1 + u) * y + A') + u * y) = u * g * A'"
    by (simp add: algebra_simps)
  ultimately have 2: "(g - 1) * ((1 + u) * y + A') + u * y \<le> ((1 + u) * g - 1) * (y + A')"
    by simp
  from 1 2 have "\<bar>F - (a + (b + S'))\<bar> \<le> ((1 + u) * g - 1) * (y + A')" by simp
  then show ?case
    by (simp add: F_def a_def b_def S'_def g_def u_def y_def A'_def add.assoc mult.commute)
qed

lemma mean_times_count_error:
  fixes m bv x c :: rat
  assumes "\<bar>m * bv - x\<bar> \<le> \<bar>x\<bar> / 2 ^ 24 + bv / 2 ^ 150"
    and "\<bar>bv - c\<bar> \<le> c / 2 ^ 24" and "0 < c"
  shows "\<bar>m * c - x\<bar> \<le> 3 * \<bar>x\<bar> / 2 ^ 24 + c / 2 ^ 150"
proof -
  define u :: rat where "u = 1 / 2 ^ 24"
  define h :: rat where "h = 1 / 2 ^ 150"
  define D where "D = \<bar>m * c - x\<bar>"
  have u: "0 \<le> u" "u \<le> 1 / 3" by (simp_all add: u_def)
  have i: "\<bar>m * bv - x\<bar> \<le> u * \<bar>x\<bar> + h * bv" using assms(1) by (simp add: u_def h_def)
  have ii: "\<bar>bv - c\<bar> \<le> u * c" using assms(2) by (simp add: u_def)
  have "c - bv \<le> u * c" using ii by linarith
  moreover have "u * c \<le> (1 / 3) * c" using u(2) assms(3) by (intro mult_right_mono) simp_all
  ultimately have lo: "2 * c \<le> 3 * bv" by simp
  then have bv: "0 < bv" using assms(3) by linarith
  have "bv * (m * c - x) = (m * bv - x) * c + x * (c - bv)" by (simp add: algebra_simps)
  then have "\<bar>bv * (m * c - x)\<bar> \<le> \<bar>(m * bv - x) * c\<bar> + \<bar>x * (c - bv)\<bar>"
    by (simp only: abs_triangle_ineq)
  then have 1: "bv * D \<le> \<bar>m * bv - x\<bar> * c + \<bar>x\<bar> * \<bar>bv - c\<bar>"
    using bv assms(3) by (simp add: abs_mult D_def abs_minus_commute)
  have 2: "\<bar>m * bv - x\<bar> * c \<le> (u * \<bar>x\<bar> + h * bv) * c"
    using i assms(3) by (intro mult_right_mono) simp_all
  have 3: "\<bar>x\<bar> * \<bar>bv - c\<bar> \<le> \<bar>x\<bar> * (u * c)"
    using ii by (intro mult_left_mono) simp_all
  have "0 \<le> u * \<bar>x\<bar>" using u by simp
  then have 4: "(u * \<bar>x\<bar>) * (2 * c) \<le> (u * \<bar>x\<bar>) * (3 * bv)" using lo by (rule mult_left_mono [rotated])
  have "bv * D \<le> (u * \<bar>x\<bar> + h * bv) * c + \<bar>x\<bar> * (u * c)" using 1 2 3 by linarith
  also have "\<dots> = (u * \<bar>x\<bar>) * (2 * c) + bv * (h * c)" by (simp add: algebra_simps)
  also have "\<dots> \<le> (u * \<bar>x\<bar>) * (3 * bv) + bv * (h * c)" using 4 by simp
  also have "\<dots> = bv * (3 * u * \<bar>x\<bar> + h * c)" by (simp add: algebra_simps)
  finally have "D \<le> 3 * u * \<bar>x\<bar> + h * c" using bv by (simp only: mult_le_cancel_left_pos)
  then show ?thesis by (simp add: D_def u_def h_def)
qed

lemma valof_fdiv_error:
  assumes "exponent s < 255" "exponent b < 255" "\<not> sign_bit b" "2 ^ 149 \<le> magnitude b"
  shows "\<bar>valof (fdiv s b) * valof b - valof s\<bar> \<le> \<bar>valof s\<bar> / 2 ^ 24 + valof b / 2 ^ 150"
proof -
  define M S B where "M = signed_mag (fdiv s b)" and "S = signed_mag s" and "B = magnitude b"
  define W :: rat where "W = 2 ^ 149"
  have W: "0 < W" by (simp add: W_def)
  have vb: "valof b = of_int B / W" using assms(3) by (simp add: valof_def signed_mag_def B_def W_def)
  have vs: "valof s = of_int S / W" by (simp add: valof_def S_def W_def)
  have vm: "valof (fdiv s b) = of_int M / W" by (simp add: valof_def M_def W_def)
  have "2 ^ 25 * \<bar>M * B - S * 2 ^ 149\<bar> \<le> 2 ^ 24 * B + 2 * (\<bar>S\<bar> * 2 ^ 149)"
    unfolding M_def S_def B_def using fdiv_error [OF assms] by (rule conjunct2)
  then have "(of_int (2 ^ 25 * \<bar>M * B - S * 2 ^ 149\<bar>) :: rat)
               \<le> of_int (2 ^ 24 * B + 2 * (\<bar>S\<bar> * 2 ^ 149))"
    by (simp only: of_int_le_iff)
  then have i: "2 ^ 25 * \<bar>of_int M * of_int B - of_int S * W\<bar>
                  \<le> 2 ^ 24 * of_int B + 2 * (\<bar>of_int S\<bar> * W)"
    by (simp add: W_def)
  have l: "of_int M / W * (of_int B / W) - of_int S / W
             = (of_int M * of_int B - of_int S * W) / (W * W)"
    using W by (simp add: field_simps)
  have r: "\<bar>of_int S / W\<bar> / 2 ^ 24 + of_int B / W / 2 ^ 150
             = (2 ^ 24 * of_int B + 2 * (\<bar>of_int S\<bar> * W)) / 2 ^ 25 / (W * W)"
  proof -
    have "(2::rat) ^ 150 = 2 * W" by (simp add: W_def)
    then show ?thesis using W by (simp add: field_simps abs_divide)
  qed
  have "\<bar>of_int M * of_int B - of_int S * W\<bar> \<le> (2 ^ 24 * of_int B + 2 * (\<bar>of_int S\<bar> * W)) / 2 ^ 25"
    using i by (simp add: pos_le_divide_eq mult.commute)
  then have "\<bar>of_int M * of_int B - of_int S * W\<bar> / (W * W)
               \<le> (2 ^ 24 * of_int B + 2 * (\<bar>of_int S\<bar> * W)) / 2 ^ 25 / (W * W)"
    using W by (intro divide_right_mono) simp_all
  moreover have "\<bar>(of_int M * of_int B - of_int S * W) / (W * W)\<bar>
                   = \<bar>of_int M * of_int B - of_int S * W\<bar> / (W * W)"
    using W by (simp only: abs_divide abs_mult abs_of_pos)
  ultimately show ?thesis by (simp only: vb vs vm l r)
qed

lemma valof_float_of_int_error:
  assumes "0 < c" "c < 2 ^ 31"
  shows "\<bar>valof (float_of_int c) - of_int c\<bar> \<le> of_int c / 2 ^ 24"
proof -
  define B where "B = magnitude (float_of_int c)"
  define W :: rat where "W = 2 ^ 149"
  have W: "0 < W" by (simp add: W_def)
  note e = float_of_int_error [OF assms]
  have vb: "valof (float_of_int c) = of_int B / W"
    using e by (simp add: valof_def signed_mag_def B_def W_def)
  have "2 ^ 24 * \<bar>B - c * 2 ^ 149\<bar> \<le> c * 2 ^ 149" using e by (simp add: B_def)
  then have "(of_int (2 ^ 24 * \<bar>B - c * 2 ^ 149\<bar>) :: rat) \<le> of_int (c * 2 ^ 149)"
    by (simp only: of_int_le_iff)
  then have "2 ^ 24 * \<bar>of_int B - of_int c * W\<bar> \<le> of_int c * W" by (simp add: W_def)
  then have "\<bar>of_int B - of_int c * W\<bar> \<le> of_int c * W / 2 ^ 24"
    by (simp add: pos_le_divide_eq mult.commute)
  then have "\<bar>of_int B - of_int c * W\<bar> / W \<le> of_int c * W / 2 ^ 24 / W"
    using W by (intro divide_right_mono) simp_all
  moreover have "of_int B / W - of_int c = (of_int B - of_int c * W) / W"
    using W by (simp add: field_simps)
  then have "\<bar>of_int B / W - of_int c\<bar> = \<bar>of_int B - of_int c * W\<bar> / W"
    using W by (simp only: abs_divide abs_of_pos)
  moreover have "of_int c * W / 2 ^ 24 / W = (of_int c :: rat) / 2 ^ 24" using W by simp
  ultimately show ?thesis by (simp only: vb)
qed

lemma get_mean_error:
  assumes "int (length v) = c" "0 < c" "c < 2 ^ 31" "exponent (foldl fadd 0 v) < 255"
  shows "exponent (fdiv (foldl fadd 0 v) (float_of_int c)) < 255"
    and "\<bar>valof (foldl fadd 0 v) - sum_list (map valof v)\<bar>
           \<le> ((1 + 1 / 2 ^ 24) ^ length v - 1) * sum_list (map (\<lambda>x. \<bar>valof x\<bar>) v)"
    and "\<bar>valof (fdiv (foldl fadd 0 v) (float_of_int c)) * of_int c - sum_list (map valof v)\<bar>
           \<le> ((1 + 3 / 2 ^ 24) * (1 + 1 / 2 ^ 24) ^ length v - 1)
                * sum_list (map (\<lambda>x. \<bar>valof x\<bar>) v) + of_int c / 2 ^ 150"
proof -
  define t where "t = foldl fadd 0 v"
  define b where "b = float_of_int c"
  define g :: rat where "g = (1 + 1 / 2 ^ 24) ^ length v"
  define A where "A = sum_list (map (\<lambda>x. \<bar>valof x\<bar>) v)"
  define S where "S = sum_list (map valof v)"
  define x where "x = valof t"
  define m where "m = valof (fdiv t b)"
  note e = float_of_int_error [OF assms(2,3), folded b_def]
  have fb: "exponent b < 255" "\<not> sign_bit b" "2 ^ 149 \<le> magnitude b" using e by simp_all
  have ft: "exponent t < 255" using assms(4) by (simp add: t_def)
  show "exponent (fdiv (foldl fadd 0 v) (float_of_int c)) < 255"
    using fdiv_error [OF ft fb] by (simp add: t_def b_def)
  have z: "valof 0 = 0" by (simp add: valof_def signed_mag_def magnitude_def exponent_def fraction_def sign_bit_def)
  have 1: "\<bar>x - S\<bar> \<le> (g - 1) * A"
    using foldl_fadd_error [OF assms(4)] by (simp add: z x_def t_def S_def g_def A_def)
  then show "\<bar>valof (foldl fadd 0 v) - sum_list (map valof v)\<bar>
           \<le> ((1 + 1 / 2 ^ 24) ^ length v - 1) * sum_list (map (\<lambda>x. \<bar>valof x\<bar>) v)"
    by (simp add: x_def t_def S_def g_def A_def)
  have cpos: "(0::rat) < of_int c" using assms(2) by simp
  have 2: "\<bar>m * of_int c - x\<bar> \<le> 3 * \<bar>x\<bar> / 2 ^ 24 + of_int c / 2 ^ 150"
    unfolding m_def x_def
    using valof_fdiv_error [OF ft fb] valof_float_of_int_error [OF assms(2,3), folded b_def] cpos
    by (rule mean_times_count_error)
  have A: "0 \<le> A" unfolding A_def by (rule sum_list_abs_nonneg)
  have SA: "\<bar>S\<bar> \<le> A" unfolding S_def A_def by (rule sum_list_abs_valof)
  have "\<bar>x\<bar> \<le> \<bar>S\<bar> + \<bar>x - S\<bar>" by simp
  with 1 SA have xa: "\<bar>x\<bar> \<le> g * A" by (simp add: algebra_simps)
  have "\<bar>m * of_int c - S\<bar> \<le> \<bar>m * of_int c - x\<bar> + \<bar>x - S\<bar>" by simp
  with 1 2 xa have "\<bar>m * of_int c - S\<bar> \<le> 3 * (g * A) / 2 ^ 24 + of_int c / 2 ^ 150 + (g - 1) * A"
    by simp
  also have "\<dots> = ((1 + 3 / 2 ^ 24) * g - 1) * A + of_int c / 2 ^ 150"
    by (simp add: algebra_simps)
  finally show "\<bar>valof (fdiv (foldl fadd 0 v) (float_of_int c)) * of_int c - sum_list (map valof v)\<bar>
           \<le> ((1 + 3 / 2 ^ 24) * (1 + 1 / 2 ^ 24) ^ length v - 1)
                * sum_list (map (\<lambda>x. \<bar>valof x\<bar>) v) + of_int c / 2 ^ 150"
    by (simp add: m_def t_def b_def S_def g_def A_def)
qed

text \<open>
  Claim C4 fails as stated. The two cells of the column \<^verbatim>\<open>0x7F61B1E6\<close>, \<^verbatim>\<open>0x7F61B1E6\<close>
  (about 3.0e38 each) are finite, and their sum divided by 2 is the cell itself, a float;
  but the float total overflows, and \<open>get_mean\<close> returns the infinity.
\<close>

theorem get_mean_overflows:
  "exponent 0x7F61B1E6 < 255 \<and>
   sum_list (map valof [0x7F61B1E6, 0x7F61B1E6]) / 2 = valof 0x7F61B1E6 \<and>
   get_mean [0x7F61B1E6, 0x7F61B1E6] 2 = Inr 0x7F800000 \<and> is_inf 0x7F800000"
  by code_simp

text \<open>
  Claim C4, amended. For a column of \<open>c\<close> cells, \<open>c\<close> positive, \<open>get_mean\<close> returns the float
  total of the cells, added from the first to the last starting at 0.0, divided by the
  count converted to float. Every addition, the conversion and the division round once.
  When the total is finite (no cell is an infinity or a NaN and no addition overflows;
  lemma \<open>foldl_fadd_finite\<close>) and \<open>c\<close> is a C \<^verbatim>\<open>int\<close>, the mean is finite, the total
  differs from the exact sum of the values of the cells by at most
  \<open>(1 + 2 ^ -24) ^ c - 1\<close> times the sum of their absolute values, and the mean times the
  count differs from the exact sum by at most \<open>(1 + 3 * 2 ^ -24) * (1 + 2 ^ -24) ^ c - 1\<close>
  times the sum of the absolute values plus \<open>c\<close> halves of the smallest positive float.
\<close>

theorem get_mean_sum_over_count:
  assumes "int (length v) = c" "0 < c"
  shows "get_mean v c = Inr (fdiv (foldl fadd 0 v) (float_of_int c)) \<and>
         (c < 2 ^ 31 \<and> exponent (foldl fadd 0 v) < 255 \<longrightarrow>
            exponent (fdiv (foldl fadd 0 v) (float_of_int c)) < 255 \<and>
            \<bar>valof (foldl fadd 0 v) - sum_list (map valof v)\<bar>
              \<le> ((1 + 1 / 2 ^ 24) ^ length v - 1) * sum_list (map (\<lambda>x. \<bar>valof x\<bar>) v) \<and>
            \<bar>valof (fdiv (foldl fadd 0 v) (float_of_int c)) * of_int c - sum_list (map valof v)\<bar>
              \<le> ((1 + 3 / 2 ^ 24) * (1 + 1 / 2 ^ 24) ^ length v - 1)
                   * sum_list (map (\<lambda>x. \<bar>valof x\<bar>) v) + of_int c / 2 ^ 150)"
proof -
  have "0 \<le> c" using assms(2) by simp
  from mean_loop_foldl [OF order_refl this assms(1) [symmetric], of 0]
  have "mean_loop v c 0 0 = Inr (foldl fadd 0 v)" by simp
  then have 1: "get_mean v c = Inr (fdiv (foldl fadd 0 v) (float_of_int c))"
    by (simp add: get_mean_def)
  from 1 get_mean_error [OF assms] show ?thesis by blast
qed

text \<open>
  The column 38.86, 39.00, 37.50: the exact sum of the three floats is within 0.00001 of
  115.36, the mean is within 0.0001 of 38.4533, and the tolerance is below 0.0001.
\<close>

theorem get_mean_sum_over_count_witness:
  "int (length [0x421B70A4, 0x421C0000, 0x42160000 :: float]) = 3 \<and> (0::int) < 3 \<and>
   (3::int) < 2 ^ 31 \<and>
   foldl fadd 0 [0x421B70A4, 0x421C0000, 0x42160000] = 0x42E6B852 \<and>
   exponent 0x42E6B852 < 255 \<and>
   get_mean [0x421B70A4, 0x421C0000, 0x42160000] 3 = Inr 0x4219D037 \<and>
   exponent 0x4219D037 < 255 \<and>
   \<bar>valof 0x4219D037 * 3 - sum_list (map valof [0x421B70A4, 0x421C0000, 0x42160000])\<bar>
     \<le> ((1 + 3 / 2 ^ 24) * (1 + 1 / 2 ^ 24) ^ 3 - 1)
          * sum_list (map (\<lambda>x. \<bar>valof x\<bar>) [0x421B70A4, 0x421C0000, 0x42160000]) + 3 / 2 ^ 150 \<and>
   ((1 + 3 / 2 ^ 24) * (1 + 1 / 2 ^ 24) ^ 3 - 1)
          * sum_list (map (\<lambda>x. \<bar>valof x\<bar>) [0x421B70A4, 0x421C0000, 0x42160000]) + 3 / 2 ^ 150
     < 1 / 10000 \<and>
   \<bar>sum_list (map valof [0x421B70A4, 0x421C0000, 0x42160000]) - 11536 / 100\<bar> < 1 / 100000 \<and>
   \<bar>valof 0x4219D037 - 384533 / 10000\<bar> < 1 / 10000"
proof -
  let ?v = "[0x421B70A4, 0x421C0000, 0x42160000 :: float]"
  have h: "int (length ?v) = 3" "(0::int) < 3" by simp_all
  have s: "foldl fadd 0 ?v = 0x42E6B852" by code_simp
  have m: "fdiv 0x42E6B852 (float_of_int 3) = 0x4219D037" by code_simp
  have e: "(3::int) < 2 ^ 31" "exponent 0x42E6B852 < 255" by code_simp+
  have l: "length ?v = 3" by simp
  have n: "((1 + 3 / 2 ^ 24) * (1 + 1 / 2 ^ 24) ^ 3 - 1)
          * sum_list (map (\<lambda>x. \<bar>valof x\<bar>) ?v) + 3 / 2 ^ 150 < 1 / 10000"
    "\<bar>sum_list (map valof ?v) - 11536 / 100\<bar> < 1 / 100000"
    "\<bar>valof 0x4219D037 - 384533 / 10000\<bar> < 1 / 10000" by code_simp+
  note t = get_mean_sum_over_count [OF h, unfolded s m l]
  from t have g: "get_mean ?v 3 = Inr 0x4219D037" by (rule conjunct1)
  from t e have "exponent 0x4219D037 < 255 \<and>
    \<bar>valof 0x42E6B852 - sum_list (map valof ?v)\<bar>
      \<le> ((1 + 1 / 2 ^ 24) ^ 3 - 1) * sum_list (map (\<lambda>x. \<bar>valof x\<bar>) ?v) \<and>
    \<bar>valof 0x4219D037 * of_int 3 - sum_list (map valof ?v)\<bar>
      \<le> ((1 + 3 / 2 ^ 24) * (1 + 1 / 2 ^ 24) ^ 3 - 1)
           * sum_list (map (\<lambda>x. \<bar>valof x\<bar>) ?v) + of_int 3 / 2 ^ 150" by blast
  then have b: "exponent 0x4219D037 < 255"
    "\<bar>valof 0x4219D037 * 3 - sum_list (map valof ?v)\<bar>
      \<le> ((1 + 3 / 2 ^ 24) * (1 + 1 / 2 ^ 24) ^ 3 - 1)
           * sum_list (map (\<lambda>x. \<bar>valof x\<bar>) ?v) + 3 / 2 ^ 150"
    by simp_all
  from h e s g b n show ?thesis by blast
qed

end
